theory Spec2Isabelle
  imports Main "HOL-Library.AList" "HOL-Library.Sublist"
begin

section \<open>Values, errors and the primary store\<close>

text \<open>
  The wrapper stores JavaScript values. The index code inspects a value only through the
  type guard \<open>isStringArray\<close> and through the test \<open>value !== undefined\<close>, so a value
  read back from the store is a \<open>jsval option\<close>: \<open>None\<close> is \<open>undefined\<close>.
  Numbers are modelled as integers.
\<close>

datatype jsval =
    JNull
  | JBool bool
  | JNum int
  | JStr string
  | JArr "jsval list"
  | JObj "(string \<times> jsval) list"

fun isString :: "jsval \<Rightarrow> bool" where
  "isString (JStr s) = True"
| "isString v = False"

fun theString :: "jsval \<Rightarrow> string" where
  "theString (JStr s) = s"
| "theString v = []"

text \<open>\<open>Array.isArray(value) && value.every((item) => typeof item === 'string')\<close>\<close>

fun isStringArray :: "jsval option \<Rightarrow> bool" where
  "isStringArray (Some (JArr xs)) = list_all isString xs"
| "isStringArray v = False"

text \<open>The \<open>string[]\<close> view of a value that passed the guard, and the array value of a list
  of strings.\<close>

fun asStrings :: "jsval option \<Rightarrow> string list" where
  "asStrings (Some (JArr xs)) = map theString xs"
| "asStrings v = []"

definition strArr :: "string list \<Rightarrow> jsval" where
  "strArr ks = JArr (map JStr ks)"

text \<open>
  Every \<open>throw new Error(...)\<close> of the source is a constructor; a wrapped error keeps the
  error it wraps, as the source's message keeps the inner message. \<open>StoreFailure\<close> is an
  I/O failure raised by the primary store, \<open>NotAFunction m\<close> the \<open>TypeError\<close> that
  JavaScript throws when a property \<open>m\<close> that is undefined is called.
\<close>

datatype error =
    StoreFailure
  | NotAFunction string
  | GlobalCompactionNotImplemented
  | FailedToSetKey string error
  | FailedToSetTags string error
  | FailedToGetKey string error
  | FailedToDeleteKey string error
  | FailedToGetKeyForTag string string error
  | FailedToGetEntries string error
  | FailedToCompactTags error
  | FailedToGetAllTags error
  | FailedToGetTagsForKey string error

text \<open>The calls of \<open>console.error\<close>.\<close>

datatype logmsg =
    CleanupAfterSetFailed error
  | TagCleanupForDeletionFailed error
  | CompactTagArrayFailed string error
  | ErrorsDuringGetByTag string "error list"

text \<open>
  The state: the contents of the primary store (a JavaScript \<open>Map\<close>, as an association
  list in insertion order), the console log, and a fault schedule. The schedule says, for
  each coming store operation in turn, whether it fails (\<open>True\<close>); once the schedule is
  used up every operation succeeds.
\<close>

record state =
  store :: "(string \<times> jsval) list"
  faults :: "bool list"
  log :: "logmsg list"

type_synonym 'a io = "state \<Rightarrow> (error + 'a) \<times> state"

definition io_return :: "'a \<Rightarrow> 'a io" where
  "io_return x = (\<lambda>s. (Inr x, s))"

definition io_throw :: "error \<Rightarrow> 'a io" where
  "io_throw e = (\<lambda>s. (Inl e, s))"

text \<open>\<open>await m; f\<close>: an error of \<open>m\<close> propagates.\<close>

definition io_bind :: "'a io \<Rightarrow> ('a \<Rightarrow> 'b io) \<Rightarrow> 'b io" where
  "io_bind m f = (\<lambda>s. case m s of (Inl e, s') \<Rightarrow> (Inl e, s') | (Inr x, s') \<Rightarrow> f x s')"

text \<open>\<open>try { m } catch (error) { h error }\<close>\<close>

definition io_catch :: "'a io \<Rightarrow> (error \<Rightarrow> 'a io) \<Rightarrow> 'a io" where
  "io_catch m h = (\<lambda>s. case m s of (Inl e, s') \<Rightarrow> h e s' | (Inr x, s') \<Rightarrow> (Inr x, s'))"

text \<open>\<open>for (const x of xs) { await f(x) }\<close>\<close>

primrec io_forEach :: "('a \<Rightarrow> unit io) \<Rightarrow> 'a list \<Rightarrow> unit io" where
  "io_forEach f [] = io_return ()"
| "io_forEach f (x # xs) = io_bind (f x) (\<lambda>u. io_forEach f xs)"

definition console_error :: "logmsg \<Rightarrow> unit io" where
  "console_error m = (\<lambda>s. (Inr (), s\<lparr>log := log s @ [m]\<rparr>))"

subsection \<open>The primary store\<close>

text \<open>
  Modelled from the spec: the primary store (Keyv) is an external library; its contract is
  \<open>get(key) -> value or undefined\<close>, \<open>set(key, value, ttl?) -> void\<close>,
  \<open>delete(key) -> boolean\<close> (true iff something was deleted) and \<open>clear() -> void\<close>,
  each of which may fail with an I/O error. A failing operation leaves the store as it
  was. Expiry after \<open>ttl\<close> happens in real time inside the store and is outside the
  model: \<open>ttl\<close> is passed on and has no effect here.
\<close>

definition store_op :: "unit io" where
  "store_op = (\<lambda>s. case faults s of
      [] \<Rightarrow> (Inr (), s)
    | f # fs \<Rightarrow> (if f then Inl StoreFailure else Inr (), s\<lparr>faults := fs\<rparr>))"

definition cache_get :: "string \<Rightarrow> (jsval option) io" where
  "cache_get key = io_bind store_op (\<lambda>u s. (Inr (map_of (store s) key), s))"

definition cache_set :: "string \<Rightarrow> jsval \<Rightarrow> int option \<Rightarrow> unit io" where
  "cache_set key v ttl =
     io_bind store_op (\<lambda>u s. (Inr (), s\<lparr>store := AList.update key v (store s)\<rparr>))"

definition cache_delete :: "string \<Rightarrow> bool io" where
  "cache_delete key =
     io_bind store_op (\<lambda>u s.
       (Inr (map_of (store s) key \<noteq> None), s\<lparr>store := AList.delete key (store s)\<rparr>))"

definition cache_clear :: "unit io" where
  "cache_clear = io_bind store_op (\<lambda>u s. (Inr (), s\<lparr>store := []\<rparr>))"

section \<open>KeyvTagManager\<close>

definition TAG_PREFIX :: string where
  "TAG_PREFIX = ''__tag__:''"

definition KEY_TAGS_PREFIX :: string where
  "KEY_TAGS_PREFIX = ''__tags__:''"

definition getTagKey :: "string \<Rightarrow> string" where
  "getTagKey tag = TAG_PREFIX @ tag"

definition getKeyTagMapKey :: "string \<Rightarrow> string" where
  "getKeyTagMapKey key = KEY_TAGS_PREFIX @ key"

definition addKeyToTag :: "string \<Rightarrow> string \<Rightarrow> unit io" where
  "addKeyToTag key tag =
     (let tagKey = getTagKey tag in
      io_bind (cache_get tagKey) (\<lambda>existing.
        let existingArray = (if isStringArray existing then asStrings existing else []) in
        if key \<notin> set existingArray
        then (let updated = existingArray @ [key] in cache_set tagKey (strArr updated) None)
        else io_return ()))"

definition removeKeyFromTag :: "string \<Rightarrow> string \<Rightarrow> unit io" where
  "removeKeyFromTag key tag =
     (let tagKey = getTagKey tag in
      io_bind (cache_get tagKey) (\<lambda>existing.
        if isStringArray existing
        then (let updated = filter (\<lambda>k. k \<noteq> key) (asStrings existing) in
              if length updated > 0
              then cache_set tagKey (strArr updated) None
              else io_bind (cache_delete tagKey) (\<lambda>b. io_return ()))
        else io_return ()))"

definition getKeysForTag :: "string \<Rightarrow> (string list) io" where
  "getKeysForTag tag =
     (let tagKey = getTagKey tag in
      io_bind (cache_get tagKey) (\<lambda>keys.
        if isStringArray keys then io_return (asStrings keys) else io_return []))"

definition getTagsForKey :: "string \<Rightarrow> (string list) io" where
  "getTagsForKey key =
     (let tagMapKey = getKeyTagMapKey key in
      io_bind (cache_get tagMapKey) (\<lambda>tags.
        if isStringArray tags then io_return (asStrings tags) else io_return []))"

definition deleteKeyFromAllTags :: "string \<Rightarrow> unit io" where
  "deleteKeyFromAllTags key =
     (let tagMapKey = getKeyTagMapKey key in
      io_bind (cache_get tagMapKey) (\<lambda>tags.
        if isStringArray tags
        then io_bind (io_forEach (\<lambda>tag. removeKeyFromTag key tag) (asStrings tags)) (\<lambda>u.
             io_bind (cache_delete tagMapKey) (\<lambda>b. io_return ()))
        else io_return ()))"

definition setTagsForKey :: "string \<Rightarrow> string list \<Rightarrow> unit io" where
  "setTagsForKey key tags =
     (let tagMapKey = getKeyTagMapKey key in
      io_bind (deleteKeyFromAllTags key) (\<lambda>u.
        if length tags > 0
        then io_bind (cache_set tagMapKey (strArr tags) None) (\<lambda>u.
             io_forEach (\<lambda>tag. addKeyToTag key tag) tags)
        else io_bind (cache_delete tagMapKey) (\<lambda>b. io_return ())))"

definition deleteTag :: "string \<Rightarrow> unit io" where
  "deleteTag tag =
     (let tagKey = getTagKey tag in
      io_bind (cache_get tagKey) (\<lambda>keys.
      io_bind (if isStringArray keys
               then io_forEach (\<lambda>key.
                      io_bind (getTagsForKey key) (\<lambda>keyTags.
                        let updatedTags = filter (\<lambda>t. t \<noteq> tag) keyTags in
                        if length updatedTags > 0
                        then cache_set (getKeyTagMapKey key) (strArr updatedTags) None
                        else io_bind (cache_delete (getKeyTagMapKey key)) (\<lambda>b. io_return ())))
                    (asStrings keys)
               else io_return ()) (\<lambda>u.
      io_bind (cache_delete tagKey) (\<lambda>b. io_return ()))))"

definition clear :: "unit io" where
  "clear = cache_clear"

text \<open>The loop of \<open>compactTag\<close>, with its two accumulators \<open>seen\<close> and \<open>validKeys\<close>.\<close>

fun compactLoop :: "string list \<Rightarrow> string set \<Rightarrow> string list \<Rightarrow> (string list) io" where
  "compactLoop [] seen validKeys = io_return validKeys"
| "compactLoop (key # rest) seen validKeys =
     (if key \<notin> seen
      then io_bind (cache_get key) (\<lambda>v.
             compactLoop rest (insert key seen)
               (if v \<noteq> None then validKeys @ [key] else validKeys))
      else compactLoop rest seen validKeys)"

definition compactTag :: "string \<Rightarrow> unit io" where
  "compactTag tag =
     (let tagKey = getTagKey tag in
      io_bind (cache_get tagKey) (\<lambda>existing.
        if isStringArray existing
        then io_bind (compactLoop (asStrings existing) {} []) (\<lambda>validKeys.
               if length validKeys \<noteq> length (asStrings existing)
               then (if length validKeys > 0
                     then cache_set tagKey (strArr validKeys) None
                     else io_bind (cache_delete tagKey) (\<lambda>b. io_return ()))
               else io_return ())
        else io_return ()))"

text \<open>\<open>tags?: string[]\<close>: \<open>None\<close> is an absent argument; \<open>!tags\<close> is false for every
  array, the empty one included.\<close>

definition compact :: "string list option \<Rightarrow> unit io" where
  "compact tags =
     (case tags of
        None \<Rightarrow> io_throw GlobalCompactionNotImplemented
      | Some ts \<Rightarrow> io_forEach compactTag ts)"

text \<open>
  The class \<open>KeyvTagManager\<close> declares that it implements \<open>TagManager\<close>, whose
  interface lists \<open>getAllTags\<close>, but the class defines no such method. On an instance
  of the class the property \<open>getAllTags\<close> is therefore undefined, and a call of it
  throws a \<open>TypeError\<close> ("getAllTags is not a function") before any store operation.
\<close>

definition getAllTags :: "(string list) io" where
  "getAllTags = io_throw (NotAFunction ''getAllTags'')"

section \<open>TaggedKeyv\<close>

text \<open>
  \<open>withLock\<close> in a sequential run, where every call is awaited before the next one is
  made: no lock is held when the call starts, the operation runs, and the \<open>finally\<close> block
  removes the entry again, so the map of locks is empty between calls and is not part of
  the sequential state. The interleaving of several pending calls is modelled separately
  below.
\<close>

definition withLock :: "string \<Rightarrow> 'a io \<Rightarrow> 'a io" where
  "withLock key operation = operation"

text \<open>The third argument of \<open>set\<close>: absent, a number (legacy form) or an options object.\<close>

datatype ttl_or_options =
    Undefined
  | Ttl int
  | Options "int option" "string list option"

definition cleanupFailedSet :: "string \<Rightarrow> unit io" where
  "cleanupFailedSet key =
     io_catch
       (io_bind (cache_delete key) (\<lambda>b. deleteKeyFromAllTags key))
       (\<lambda>cleanupError. console_error (CleanupAfterSetFailed cleanupError))"

definition set_TaggedKeyv :: "string \<Rightarrow> jsval \<Rightarrow> ttl_or_options \<Rightarrow> string list \<Rightarrow> unit io" where
  "set_TaggedKeyv key v ttlOrOptions tags =
     withLock key
       (let (ttl, finalTags) =
              (case ttlOrOptions of
                 Options t tg \<Rightarrow> (t, (case tg of Some ts \<Rightarrow> ts | None \<Rightarrow> []))
               | Ttl n \<Rightarrow> (Some n, tags)
               | Undefined \<Rightarrow> (None, tags))
        in
        io_bind (io_catch (cache_set key v ttl) (\<lambda>e. io_throw (FailedToSetKey key e))) (\<lambda>u.
          if length finalTags > 0
          then io_catch (setTagsForKey key finalTags)
                 (\<lambda>e. io_bind (cleanupFailedSet key) (\<lambda>u. io_throw (FailedToSetTags key e)))
          else io_return ()))"

definition get_TaggedKeyv :: "string \<Rightarrow> (jsval option) io" where
  "get_TaggedKeyv key = io_catch (cache_get key) (\<lambda>e. io_throw (FailedToGetKey key e))"

definition delete_TaggedKeyv :: "string \<Rightarrow> bool io" where
  "delete_TaggedKeyv key =
     withLock key
       (io_catch
          (io_bind
             (io_catch (deleteKeyFromAllTags key)
                (\<lambda>e. console_error (TagCleanupForDeletionFailed e)))
             (\<lambda>u. cache_delete key))
          (\<lambda>e. io_throw (FailedToDeleteKey key e)))"

text \<open>
  \<open>Array.prototype.slice(start, end)\<close> on integer arguments: a negative index counts from
  the end of the array, and both indices are clamped to the array.
\<close>

definition slice :: "'a list \<Rightarrow> int \<Rightarrow> int \<Rightarrow> 'a list" where
  "slice xs start end =
     (let len = int (length xs);
          k = (if start < 0 then max (len + start) 0 else min start len);
          final = (if end < 0 then max (len + end) 0 else min end len)
      in take (nat (final - k)) (drop (nat k) xs))"

record tag_options =
  page :: "int option"
  limit :: "int option"

text \<open>The loop of \<open>getByTag\<close> over \<open>keysToFetch\<close>, with \<open>results\<close>, \<open>errors\<close> and
  \<open>deadKeys\<close>.\<close>

fun fetchLoop ::
  "string \<Rightarrow> string list \<Rightarrow> (string \<times> jsval) list \<Rightarrow> error list \<Rightarrow> nat
     \<Rightarrow> ((string \<times> jsval) list \<times> error list \<times> nat) io" where
  "fetchLoop tag [] results errors deadKeys = io_return (results, errors, deadKeys)"
| "fetchLoop tag (key # rest) results errors deadKeys =
     io_bind
       (io_catch
          (io_bind (cache_get key) (\<lambda>val.
             case val of
               Some x \<Rightarrow> io_return (results @ [(key, x)], errors, deadKeys)
             | None \<Rightarrow> io_return (results, errors, deadKeys + 1)))
          (\<lambda>e. io_return (results, errors @ [FailedToGetKeyForTag key tag e], deadKeys)))
       (\<lambda>(results', errors', deadKeys'). fetchLoop tag rest results' errors' deadKeys')"

definition getByTag :: "string \<Rightarrow> tag_options option \<Rightarrow> ((string \<times> jsval) list) io" where
  "getByTag tag options =
     io_catch
       (io_bind (getKeysForTag tag) (\<lambda>allKeys.
          if length allKeys = 0 then io_return []
          else
            let pg = (case options of None \<Rightarrow> 1
                      | Some opts \<Rightarrow> (case page opts of None \<Rightarrow> 1 | Some p \<Rightarrow> p));
                lim = (case options of None \<Rightarrow> 50
                       | Some opts \<Rightarrow> (case limit opts of None \<Rightarrow> 50 | Some l \<Rightarrow> l));
                currentPage = max 1 pg;
                offset = (currentPage - 1) * lim;
                end = offset + lim;
                keysToFetch = slice allKeys offset end
            in
            if length keysToFetch = 0 then io_return []
            else
              io_bind (fetchLoop tag keysToFetch [] [] 0) (\<lambda>(results, errors, deadKeys).
              io_bind
                (if deadKeys > 0
                 then io_catch (compact (Some [tag]))
                        (\<lambda>compactError. console_error (CompactTagArrayFailed tag compactError))
                 else io_return ()) (\<lambda>u.
              io_bind
                (if length errors > 0
                 then console_error (ErrorsDuringGetByTag tag errors)
                 else io_return ()) (\<lambda>u.
              io_return results)))))
       (\<lambda>e. io_throw (FailedToGetEntries tag e))"

definition compactTags :: "string list option \<Rightarrow> unit io" where
  "compactTags tags = io_catch (compact tags) (\<lambda>e. io_throw (FailedToCompactTags e))"

definition getAllTags_TaggedKeyv :: "(string list) io" where
  "getAllTags_TaggedKeyv = io_catch getAllTags (\<lambda>e. io_throw (FailedToGetAllTags e))"

definition getTagsForKey_TaggedKeyv :: "string \<Rightarrow> (string list) io" where
  "getTagsForKey_TaggedKeyv key =
     io_catch (getTagsForKey key) (\<lambda>e. io_throw (FailedToGetTagsForKey key e))"

section \<open>The per-key lock under interleaving\<close>

text \<open>
  \<open>withLock\<close> when several calls for one key are pending at once. JavaScript runs each
  piece of code between two \<open>await\<close>s without interruption, so a call of
  \<open>withLock(key, operation)\<close> goes through these steps, each atomic:
  \<^item> \<open>Call i\<close>: the call starts and reads \<open>this.locks.get(lockKey)\<close>. If there is an
    entry, the call suspends at \<open>await existingLock\<close>. If there is none, it goes on at
    once: it starts the operation, which runs to its first store access, and stores its
    own promise with \<open>this.locks.set\<close>.
  \<^item> \<open>Resume i\<close>: the awaited promise has settled and the call continues after the
    \<open>await\<close>. If the promise was rejected, the \<open>await\<close> throws and the call fails with
    that error. Otherwise it starts its operation and stores its promise, as above; the
    map of locks is not read again.
  \<^item> \<open>Settle i ok\<close>: the operation of call \<open>i\<close> ends, successfully or not. The
    \<open>finally\<close> block runs \<open>this.locks.delete(lockKey)\<close>, whichever call the entry belongs
    to, and the promise of the call settles; the promise stored in the map,
    \<open>lockPromise.then(() => undefined)\<close>, settles the same way.
  The state holds, for the one key, the entry of the map of locks (the call whose promise
  it is), the state of each call's promise and the phase of each call.
\<close>

datatype promise_state = Pending | Fulfilled | Rejected

datatype phase =
    NotCalled
  | AwaitingLock nat
  | InOperation
  | Succeeded
  | Failed
  | RejectedByLock

record lock_state =
  locks :: "nat option"
  promises :: "nat \<Rightarrow> promise_state"
  phases :: "nat \<Rightarrow> phase"

datatype event = Call nat | Resume nat | Settle nat bool

definition init_locks :: lock_state where
  "init_locks = \<lparr>locks = None, promises = (\<lambda>i. Pending), phases = (\<lambda>i. NotCalled)\<rparr>"

text \<open>The call starts its operation and stores its promise.\<close>

definition enter :: "nat \<Rightarrow> lock_state \<Rightarrow> lock_state" where
  "enter i s = s\<lparr>locks := Some i, promises := (promises s)(i := Pending),
                 phases := (phases s)(i := InOperation)\<rparr>"

text \<open>One step; \<open>None\<close> when the event cannot happen in the state.\<close>

fun step :: "event \<Rightarrow> lock_state \<Rightarrow> lock_state option" where
  "step (Call i) s =
     (if phases s i \<noteq> NotCalled then None
      else case locks s of
             Some j \<Rightarrow> Some (s\<lparr>phases := (phases s)(i := AwaitingLock j)\<rparr>)
           | None \<Rightarrow> Some (enter i s))"
| "step (Resume i) s =
     (case phases s i of
        AwaitingLock j \<Rightarrow>
          (case promises s j of
             Pending \<Rightarrow> None
           | Fulfilled \<Rightarrow> Some (enter i s)
           | Rejected \<Rightarrow> Some (s\<lparr>phases := (phases s)(i := RejectedByLock)\<rparr>))
      | _ \<Rightarrow> None)"
| "step (Settle i ok) s =
     (if phases s i = InOperation
      then Some (s\<lparr>locks := None,
                   promises := (promises s)(i := (if ok then Fulfilled else Rejected)),
                   phases := (phases s)(i := (if ok then Succeeded else Failed))\<rparr>)
      else None)"

fun run :: "event list \<Rightarrow> lock_state \<Rightarrow> lock_state option" where
  "run [] s = Some s"
| "run (e # es) s = (case step e s of None \<Rightarrow> None | Some s' \<Rightarrow> run es s')"


section \<open>Auxiliary definitions for the proofs\<close>

text \<open>A computation is total on a working store: started with an empty fault schedule it
  returns a value, logs nothing and leaves the schedule empty.\<close>

definition total_ok :: "'a io \<Rightarrow> bool" where
  "total_ok m = (\<forall>s. faults s = [] \<longrightarrow> (\<exists>x s'. m s = (Inr x, s') \<and> faults s' = [] \<and> log s' = log s))"

text \<open>The TagKeysRecord of a tag and the KeyTagsRecord of a key, as \<open>getKeysForTag\<close> and
  \<open>getTagsForKey\<close> read them: a missing or malformed record is the empty list.\<close>

definition tagKeys :: "(string \<times> jsval) list \<Rightarrow> string \<Rightarrow> string list" where
  "tagKeys st tag =
     (if isStringArray (map_of st (getTagKey tag)) then asStrings (map_of st (getTagKey tag)) else [])"

definition keyTags :: "(string \<times> jsval) list \<Rightarrow> string \<Rightarrow> string list" where
  "keyTags st key =
     (if isStringArray (map_of st (getKeyTagMapKey key))
      then asStrings (map_of st (getKeyTagMapKey key)) else [])"

text \<open>Removing duplicates from a list, keeping the first occurrence of each element.\<close>

primrec dedupe_first :: "'a list \<Rightarrow> 'a list" where
  "dedupe_first [] = []"
| "dedupe_first (x # xs) = x # filter (\<lambda>y. y \<noteq> x) (dedupe_first xs)"

text \<open>
  What compacting one tag does to the store, in the words of the specification:
  deduplicate the tag's key list keeping first occurrences and drop the keys that hold no
  value; if the filtered list differs from the stored one, persist it, or delete the
  record when the filtered list is empty; otherwise write nothing.
\<close>

definition compacted :: "string \<Rightarrow> (string \<times> jsval) list \<Rightarrow> (string \<times> jsval) list" where
  "compacted tag st =
     (let existing = map_of st (getTagKey tag) in
      if isStringArray existing
      then (let filtered = filter (\<lambda>k. map_of st k \<noteq> None) (dedupe_first (asStrings existing)) in
            if filtered = asStrings existing then st
            else if filtered = [] then AList.delete (getTagKey tag) st
            else AList.update (getTagKey tag) (strArr filtered) st)
      else st)"

text \<open>The page and the limit that \<open>getByTag\<close> works with: the options' values, or the
  defaults 1 and 50 where the options or the field are absent.\<close>

definition requestedPage :: "tag_options option \<Rightarrow> int" where
  "requestedPage options =
     (case options of None \<Rightarrow> 1 | Some opts \<Rightarrow> (case page opts of None \<Rightarrow> 1 | Some p \<Rightarrow> p))"

definition requestedLimit :: "tag_options option \<Rightarrow> int" where
  "requestedLimit options =
     (case options of None \<Rightarrow> 50 | Some opts \<Rightarrow> (case limit opts of None \<Rightarrow> 50 | Some l \<Rightarrow> l))"

text \<open>The (key, value) pairs of the keys of a list that hold a value, in the list's order.\<close>

definition livePairs :: "(string \<times> jsval) list \<Rightarrow> string list \<Rightarrow> (string \<times> jsval) list" where
  "livePairs st keys =
     concat (map (\<lambda>k. case map_of st k of Some v \<Rightarrow> [(k, v)] | None \<Rightarrow> []) keys)"

text \<open>The two invariants of the index records: no key twice in a TagKeysRecord, no tag
  twice in a KeyTagsRecord.\<close>

definition keys_inv :: "(string \<times> jsval) list \<Rightarrow> bool" where
  "keys_inv st = (\<forall>tag. distinct (tagKeys st tag))"

definition tags_inv :: "(string \<times> jsval) list \<Rightarrow> bool" where
  "tags_inv st = (\<forall>key. distinct (keyTags st key))"

text \<open>The operations of the \<open>TagManager\<close> interface, and their run on the default
  implementation (a value returned is dropped: only the state matters here).\<close>

datatype tag_operation =
    AddKeyToTag string string
  | RemoveKeyFromTag string string
  | GetKeysForTag string
  | GetTagsForKey string
  | SetTagsForKey string "string list"
  | DeleteTag string
  | DeleteKeyFromAllTags string
  | Clear
  | Compact "string list option"
  | GetAllTags

fun perform :: "tag_operation \<Rightarrow> unit io" where
  "perform (AddKeyToTag key tag) = addKeyToTag key tag"
| "perform (RemoveKeyFromTag key tag) = removeKeyFromTag key tag"
| "perform (GetKeysForTag tag) = io_bind (getKeysForTag tag) (\<lambda>keys. io_return ())"
| "perform (GetTagsForKey key) = io_bind (getTagsForKey key) (\<lambda>tags. io_return ())"
| "perform (SetTagsForKey key tags) = setTagsForKey key tags"
| "perform (DeleteTag tag) = deleteTag tag"
| "perform (DeleteKeyFromAllTags key) = deleteKeyFromAllTags key"
| "perform Clear = clear"
| "perform (Compact tags) = compact tags"
| "perform GetAllTags = io_bind getAllTags (\<lambda>tags. io_return ())"

text \<open>A computation preserves a property of the store's contents, however it ends.\<close>

definition preserves :: "((string \<times> jsval) list \<Rightarrow> bool) \<Rightarrow> 'a io \<Rightarrow> bool" where
  "preserves I m = (\<forall>s r s'. I (store s) \<longrightarrow> m s = (r, s') \<longrightarrow> I (store s'))"

text \<open>The call an event belongs to, and the invariant of the lock when only the calls 0 and
  1 are made: a call is inside its operation exactly when the entry of the map is its
  own, a waiting call waits for the other call, which has started, and a fulfilled
  promise belongs to a call that succeeded.\<close>

fun call_of :: "event \<Rightarrow> nat" where
  "call_of (Call i) = i"
| "call_of (Resume i) = i"
| "call_of (Settle i ok) = i"

definition two_calls_inv :: "lock_state \<Rightarrow> bool" where
  "two_calls_inv s =
     ((locks s = None \<or> locks s = Some 0 \<or> locks s = Some 1)
      \<and> (phases s 0 = InOperation \<longleftrightarrow> locks s = Some 0)
      \<and> (phases s 1 = InOperation \<longleftrightarrow> locks s = Some 1)
      \<and> (\<forall>j. phases s 0 = AwaitingLock j \<longrightarrow> j = 1 \<and> phases s 1 \<noteq> NotCalled)
      \<and> (\<forall>j. phases s 1 = AwaitingLock j \<longrightarrow> j = 0 \<and> phases s 0 \<noteq> NotCalled)
      \<and> (promises s 0 = Fulfilled \<longrightarrow> phases s 0 = Succeeded)
      \<and> (promises s 1 = Fulfilled \<longrightarrow> phases s 1 = Succeeded))"

text \<open>The index knows every tag of a key: each tag whose key list holds the key is named in
  the key's KeyTagsRecord. (A key that is itself the index key of a tag shares its entry
  with that tag's key list; that one tag is left out.)\<close>

definition key_recorded :: "(string \<times> jsval) list \<Rightarrow> string \<Rightarrow> bool" where
  "key_recorded st key =
     (\<forall>tag. key \<in> set (tagKeys st tag) \<longrightarrow> getTagKey tag = key \<or> tag \<in> set (keyTags st key))"


section \<open>Basic lemmas\<close>


lemma io_bind_cases:
  assumes "io_bind m f s = (r, s')"
  obtains (Err) e where "m s = (Inl e, s')" "r = Inl e"
        | (Ok) x s1 where "m s = (Inr x, s1)" "f x s1 = (r, s')"
  using assms by (auto simp: io_bind_def split: prod.splits sum.splits)

lemma io_catch_cases:
  assumes "io_catch m h s = (r, s')"
  obtains (Err) e s1 where "m s = (Inl e, s1)" "h e s1 = (r, s')"
        | (Ok) x where "m s = (Inr x, s')" "r = Inr x"
  using assms by (auto simp: io_catch_def split: prod.splits sum.splits)

lemma store_op_cases:
  assumes "store_op s = (r, s')"
  obtains (Ok) "r = Inr ()" "store s' = store s" "log s' = log s" "faults s' = tl (faults s)"
        | (Err) "r = Inl StoreFailure" "store s' = store s" "log s' = log s" "faults s' = tl (faults s)"
  using assms by (auto simp: store_op_def split: list.splits if_splits)

lemma cache_get_cases:
  assumes "cache_get k s = (r, s')"
  obtains (Ok) "r = Inr (map_of (store s) k)" "store s' = store s" "log s' = log s"
        | (Err) "r = Inl StoreFailure" "store s' = store s" "log s' = log s"
  using assms unfolding cache_get_def
  by (elim io_bind_cases store_op_cases) auto

lemma cache_set_cases:
  assumes "cache_set k v ttl s = (r, s')"
  obtains (Ok) "r = Inr ()" "store s' = AList.update k v (store s)" "log s' = log s"
        | (Err) "r = Inl StoreFailure" "store s' = store s" "log s' = log s"
  using assms unfolding cache_set_def
  by (elim io_bind_cases store_op_cases) auto

lemma cache_delete_cases:
  assumes "cache_delete k s = (r, s')"
  obtains (Ok) "r = Inr (map_of (store s) k \<noteq> None)" "store s' = AList.delete k (store s)" "log s' = log s"
        | (Err) "r = Inl StoreFailure" "store s' = store s" "log s' = log s"
  using assms unfolding cache_delete_def
  by (elim io_bind_cases store_op_cases) auto

lemma io_return_eq: "io_return x s = (r, s') \<longleftrightarrow> r = Inr x \<and> s' = s"
  by (auto simp: io_return_def)

lemma io_throw_eq: "io_throw e s = (r, s') \<longleftrightarrow> r = Inl e \<and> s' = s"
  by (auto simp: io_throw_def)

lemma io_forEach_invariant:
  assumes step: "\<And>x s r s'. x \<in> set xs \<Longrightarrow> I s \<Longrightarrow> f x s = (r, s') \<Longrightarrow> I s'"
    and "I s" and "io_forEach f xs s = (r, s')"
  shows "I s'"
  using assms
proof (induction xs arbitrary: s)
  case Nil
  then show ?case by (simp add: io_return_eq)
next
  case (Cons a xs)
  from Cons.prems(3) have "io_bind (f a) (\<lambda>u. io_forEach f xs) s = (r, s')" by simp
  then show ?case
  proof (cases rule: io_bind_cases)
    case (Err e)
    then show ?thesis using Cons.prems(1)[of a s "Inl e" s'] Cons.prems(2) by simp
  next
    case (Ok x s1)
    have "I s1" using Cons.prems(1)[of a s "Inr x" s1] Cons.prems(2) Ok by simp
    show ?thesis
      by (rule Cons.IH[OF _ \<open>I s1\<close> Ok(2)]) (use Cons.prems(1) in auto)
  qed
qed

lemma total_ok_return: "total_ok (io_return x)"
  by (simp add: total_ok_def io_return_def)

lemma total_ok_bind:
  assumes "total_ok m" "\<And>x. total_ok (f x)"
  shows "total_ok (io_bind m f)"
  unfolding total_ok_def
proof (intro allI impI)
  fix s :: state
  assume "faults s = []"
  then obtain x s1 where m: "m s = (Inr x, s1)" "faults s1 = []" "log s1 = log s"
    using assms(1) unfolding total_ok_def by blast
  then obtain y s2 where "f x s1 = (Inr y, s2)" "faults s2 = []" "log s2 = log s1"
    using assms(2)[of x] unfolding total_ok_def by blast
  then show "\<exists>x s'. io_bind m f s = (Inr x, s') \<and> faults s' = [] \<and> log s' = log s"
    using m by (simp add: io_bind_def)
qed

lemma total_ok_catch:
  assumes "total_ok m"
  shows "total_ok (io_catch m h)"
  unfolding total_ok_def
proof (intro allI impI)
  fix s :: state
  assume "faults s = []"
  then obtain x s1 where m: "m s = (Inr x, s1)" "faults s1 = []" "log s1 = log s"
    using assms(1) unfolding total_ok_def by blast
  then show "\<exists>x s'. io_catch m h s = (Inr x, s') \<and> faults s' = [] \<and> log s' = log s"
    by (simp add: io_catch_def)
qed

lemma total_ok_store_op: "total_ok store_op"
  by (simp add: total_ok_def store_op_def)

lemma total_ok_cache_get: "total_ok (cache_get k)"
  unfolding cache_get_def by (rule total_ok_bind[OF total_ok_store_op]) (simp add: total_ok_def)

lemma total_ok_cache_set: "total_ok (cache_set k v ttl)"
  unfolding cache_set_def by (rule total_ok_bind[OF total_ok_store_op]) (simp add: total_ok_def)

lemma total_ok_cache_delete: "total_ok (cache_delete k)"
  unfolding cache_delete_def by (rule total_ok_bind[OF total_ok_store_op]) (simp add: total_ok_def)

lemma total_ok_forEach: "(\<And>x. total_ok (f x)) \<Longrightarrow> total_ok (io_forEach f xs)"
  by (induction xs) (auto intro: total_ok_return total_ok_bind)

lemmas total_ok_intros = total_ok_return total_ok_bind total_ok_cache_get total_ok_cache_set
  total_ok_cache_delete total_ok_forEach

lemma total_ok_addKeyToTag: "total_ok (addKeyToTag k t)"
  unfolding addKeyToTag_def Let_def by (auto intro!: total_ok_intros)

lemma total_ok_removeKeyFromTag: "total_ok (removeKeyFromTag k t)"
  unfolding removeKeyFromTag_def Let_def by (auto intro!: total_ok_intros)

lemma total_ok_deleteKeyFromAllTags: "total_ok (deleteKeyFromAllTags k)"
  unfolding deleteKeyFromAllTags_def Let_def
  by (auto intro!: total_ok_intros total_ok_removeKeyFromTag)

lemma total_ok_setTagsForKey: "total_ok (setTagsForKey k ts)"
  unfolding setTagsForKey_def Let_def
  by (auto intro!: total_ok_intros total_ok_deleteKeyFromAllTags total_ok_addKeyToTag)

lemma tag_key_neq_map_key: "getTagKey t \<noteq> getKeyTagMapKey k"
  by (simp add: getTagKey_def getKeyTagMapKey_def TAG_PREFIX_def KEY_TAGS_PREFIX_def)

lemma prefix_getTagKey: "prefix TAG_PREFIX (getTagKey t)"
  by (simp add: getTagKey_def)

lemma not_prefix_map_key: "\<not> prefix TAG_PREFIX (getKeyTagMapKey k)"
  by (simp add: getKeyTagMapKey_def TAG_PREFIX_def KEY_TAGS_PREFIX_def)

lemma map_key_neq_self: "getKeyTagMapKey k \<noteq> k"
  by (simp add: getKeyTagMapKey_def KEY_TAGS_PREFIX_def)

lemma getTagKey_inj: "getTagKey a = getTagKey b \<longleftrightarrow> a = b"
  by (simp add: getTagKey_def)

lemma getKeyTagMapKey_inj: "getKeyTagMapKey a = getKeyTagMapKey b \<longleftrightarrow> a = b"
  by (simp add: getKeyTagMapKey_def)

lemma addKeyToTag_frame:
  assumes "addKeyToTag k t s = (r, s')" "k' \<noteq> getTagKey t"
  shows "map_of (store s') k' = map_of (store s) k'"
  using assms unfolding addKeyToTag_def Let_def
  by (elim io_bind_cases cache_get_cases cache_set_cases)
     (auto simp: io_return_eq update_conv' split: if_splits elim!: cache_set_cases)

lemma removeKeyFromTag_frame:
  assumes "removeKeyFromTag k t s = (r, s')" "k' \<noteq> getTagKey t"
  shows "map_of (store s') k' = map_of (store s) k'"
  using assms unfolding removeKeyFromTag_def Let_def
  by (elim io_bind_cases cache_get_cases)
     (auto simp: io_return_eq update_conv' delete_conv' split: if_splits elim!: cache_set_cases cache_delete_cases io_bind_cases)


lemma store_op_ok: "faults s = [] \<Longrightarrow> store_op s = (Inr (), s)"
  by (simp add: store_op_def)

lemma cache_get_ok: "faults s = [] \<Longrightarrow> cache_get k s = (Inr (map_of (store s) k), s)"
  by (simp add: cache_get_def io_bind_def store_op_ok)

lemma cache_set_ok:
  "faults s = [] \<Longrightarrow> cache_set k v ttl s = (Inr (), s\<lparr>store := AList.update k v (store s)\<rparr>)"
  by (simp add: cache_set_def io_bind_def store_op_ok)

lemma cache_delete_ok:
  "faults s = [] \<Longrightarrow>
     cache_delete k s = (Inr (map_of (store s) k \<noteq> None), s\<lparr>store := AList.delete k (store s)\<rparr>)"
  by (simp add: cache_delete_def io_bind_def store_op_ok)

lemma io_bind_Inr: "m s = (Inr x, s') \<Longrightarrow> io_bind m f s = f x s'"
  by (simp add: io_bind_def)

lemma io_bind_Inl: "m s = (Inl e, s') \<Longrightarrow> io_bind m f s = (Inl e, s')"
  by (simp add: io_bind_def)

lemma io_catch_Inr: "m s = (Inr x, s') \<Longrightarrow> io_catch m h s = (Inr x, s')"
  by (simp add: io_catch_def)

lemma io_catch_Inl: "m s = (Inl e, s') \<Longrightarrow> io_catch m h s = h e s'"
  by (simp add: io_catch_def)

lemma isStringArray_strArr: "isStringArray (Some (strArr ks))"
  by (simp add: strArr_def list_all_iff)

lemma asStrings_strArr: "asStrings (Some (strArr ks)) = ks"
  by (simp add: strArr_def comp_def)


lemma forEach_removeKey_frame:
  assumes "io_forEach (\<lambda>tag. removeKeyFromTag k tag) ts s = (r, s')" "\<not> prefix TAG_PREFIX k'"
  shows "map_of (store s') k' = map_of (store s) k'"
proof (rule io_forEach_invariant[where I = "\<lambda>s1. map_of (store s1) k' = map_of (store s) k'",
        OF _ _ assms(1)])
  fix x s1 r1 s2
  assume "map_of (store s1) k' = map_of (store s) k'" "removeKeyFromTag k x s1 = (r1, s2)"
  moreover have "k' \<noteq> getTagKey x" using assms(2) prefix_getTagKey by auto
  ultimately show "map_of (store s2) k' = map_of (store s) k'"
    using removeKeyFromTag_frame by metis
qed simp

lemma forEach_addKey_frame:
  assumes "io_forEach (\<lambda>tag. addKeyToTag k tag) ts s = (r, s')" "\<not> prefix TAG_PREFIX k'"
  shows "map_of (store s') k' = map_of (store s) k'"
proof (rule io_forEach_invariant[where I = "\<lambda>s1. map_of (store s1) k' = map_of (store s) k'",
        OF _ _ assms(1)])
  fix x s1 r1 s2
  assume "map_of (store s1) k' = map_of (store s) k'" "addKeyToTag k x s1 = (r1, s2)"
  moreover have "k' \<noteq> getTagKey x" using assms(2) prefix_getTagKey by auto
  ultimately show "map_of (store s2) k' = map_of (store s) k'"
    using addKeyToTag_frame by metis
qed simp

lemma deleteKeyFromAllTags_frame:
  assumes "deleteKeyFromAllTags k s = (r, s')" "\<not> prefix TAG_PREFIX k'" "k' \<noteq> getKeyTagMapKey k"
  shows "map_of (store s') k' = map_of (store s) k'"
  using assms(1) unfolding deleteKeyFromAllTags_def Let_def
proof (cases rule: io_bind_cases)
  case (Err e)
  then show ?thesis by (elim cache_get_cases) auto
next
  case (Ok x s1)
  from Ok(1) have s1: "store s1 = store s" by (elim cache_get_cases) auto
  show ?thesis
  proof (cases "isStringArray x")
    case False
    with Ok(2) show ?thesis using s1 by (simp add: io_return_eq)
  next
    case True
    with Ok(2) have "io_bind (io_forEach (\<lambda>tag. removeKeyFromTag k tag) (asStrings x))
        (\<lambda>u. io_bind (cache_delete (getKeyTagMapKey k)) (\<lambda>b. io_return ())) s1 = (r, s')" by simp
    then show ?thesis
    proof (cases rule: io_bind_cases)
      case (Err e)
      then show ?thesis using forEach_removeKey_frame[OF _ assms(2)] s1 by metis
    next
      case (Ok u s2)
      have "map_of (store s2) k' = map_of (store s) k'"
        using forEach_removeKey_frame[OF Ok(1) assms(2)] s1 by simp
      moreover have "map_of (store s') k' = map_of (store s2) k'"
        using Ok(2) assms(3)
        by (elim io_bind_cases cache_delete_cases) (auto simp: io_return_eq delete_conv')
      ultimately show ?thesis by simp
    qed
  qed
qed

lemma setTagsForKey_frame:
  assumes "setTagsForKey k ts s = (r, s')" "\<not> prefix TAG_PREFIX k'" "k' \<noteq> getKeyTagMapKey k"
  shows "map_of (store s') k' = map_of (store s) k'"
  using assms(1) unfolding setTagsForKey_def Let_def
proof (cases rule: io_bind_cases)
  case (Err e)
  then show ?thesis using deleteKeyFromAllTags_frame[OF _ assms(2,3)] by metis
next
  case (Ok u s1)
  have s1: "map_of (store s1) k' = map_of (store s) k'"
    using deleteKeyFromAllTags_frame[OF Ok(1) assms(2,3)] .
  show ?thesis
  proof (cases "ts = []")
    case True
    with Ok(2) have "io_bind (cache_delete (getKeyTagMapKey k)) (\<lambda>b. io_return ()) s1 = (r, s')"
      by simp
    then show ?thesis using s1 assms(3)
      by (elim io_bind_cases cache_delete_cases) (auto simp: io_return_eq delete_conv')
  next
    case False
    with Ok(2) have "io_bind (cache_set (getKeyTagMapKey k) (strArr ts) None)
        (\<lambda>u. io_forEach (\<lambda>tag. addKeyToTag k tag) ts) s1 = (r, s')" by simp
    then show ?thesis
    proof (cases rule: io_bind_cases)
      case (Err e)
      then show ?thesis using s1 by (elim cache_set_cases) auto
    next
      case (Ok u2 s2)
      have "map_of (store s2) k' = map_of (store s1) k'"
        using Ok(1) assms(3) by (elim cache_set_cases) (auto simp: update_conv')
      then show ?thesis using forEach_addKey_frame[OF Ok(2) assms(2)] s1 by simp
    qed
  qed
qed

lemma setTagsForKey_record:
  assumes "setTagsForKey k ts s = (Inr u, s')" "ts \<noteq> []"
  shows "map_of (store s') (getKeyTagMapKey k) = Some (strArr ts)"
  using assms(1) unfolding setTagsForKey_def Let_def
proof (cases rule: io_bind_cases)
  case (Ok u1 s1)
  with assms(2) have "io_bind (cache_set (getKeyTagMapKey k) (strArr ts) None)
        (\<lambda>u. io_forEach (\<lambda>tag. addKeyToTag k tag) ts) s1 = (Inr u, s')" by simp
  then show ?thesis
  proof (cases rule: io_bind_cases)
    case (Ok u2 s2)
    have "map_of (store s2) (getKeyTagMapKey k) = Some (strArr ts)"
      using Ok(1) by (elim cache_set_cases) (auto simp: update_conv')
    then show ?thesis using forEach_addKey_frame[OF Ok(2) not_prefix_map_key] by simp
  qed simp
qed simp

lemma getTagsForKey_ok:
  "faults s = [] \<Longrightarrow> getTagsForKey k s =
     (Inr (if isStringArray (map_of (store s) (getKeyTagMapKey k))
           then asStrings (map_of (store s) (getKeyTagMapKey k)) else []), s)"
  by (simp add: getTagsForKey_def Let_def io_bind_Inr[OF cache_get_ok] io_return_def)

lemma getKeysForTag_ok':
  "faults s = [] \<Longrightarrow> getKeysForTag t s =
     (Inr (if isStringArray (map_of (store s) (getTagKey t))
           then asStrings (map_of (store s) (getTagKey t)) else []), s)"
  by (simp add: getKeysForTag_def Let_def io_bind_Inr[OF cache_get_ok] io_return_def)

lemma get_TaggedKeyv_ok:
  "faults s = [] \<Longrightarrow> get_TaggedKeyv k s = (Inr (map_of (store s) k), s)"
  by (simp add: get_TaggedKeyv_def io_catch_Inr[OF cache_get_ok])

lemma getTagsForKey_TaggedKeyv_ok:
  "faults s = [] \<Longrightarrow> getTagsForKey_TaggedKeyv k s = getTagsForKey k s"
  by (simp add: getTagsForKey_TaggedKeyv_def io_catch_Inr[OF getTagsForKey_ok] getTagsForKey_ok)

section \<open>Effects and preserved properties, under any failures\<close>

text \<open>What a run of each operation can have written, whatever the store's failures.\<close>

lemma addKeyToTag_effect:
  assumes "addKeyToTag key tag s = (r, s')"
  shows "store s' = store s
       \<or> (key \<notin> set (tagKeys (store s) tag)
          \<and> store s' = AList.update (getTagKey tag) (strArr (tagKeys (store s) tag @ [key])) (store s))"
  using assms unfolding addKeyToTag_def Let_def tagKeys_def
  by (elim io_bind_cases cache_get_cases)
     (auto simp: io_return_eq split: if_splits elim!: cache_set_cases)

lemma removeKeyFromTag_effect:
  assumes "removeKeyFromTag key tag s = (r, s')"
  shows "store s' = store s
       \<or> store s' = AList.update (getTagKey tag)
                      (strArr (filter (\<lambda>k. k \<noteq> key) (tagKeys (store s) tag))) (store s)
       \<or> store s' = AList.delete (getTagKey tag) (store s)"
  using assms unfolding removeKeyFromTag_def Let_def tagKeys_def
  by (elim io_bind_cases cache_get_cases)
     (auto simp: io_return_eq split: if_splits elim!: cache_set_cases cache_delete_cases io_bind_cases)

lemma preservesI:
  "(\<And>s r s'. I (store s) \<Longrightarrow> m s = (r, s') \<Longrightarrow> I (store s')) \<Longrightarrow> preserves I m"
  unfolding preserves_def by blast

lemma preservesD: "preserves I m \<Longrightarrow> I (store s) \<Longrightarrow> m s = (r, s') \<Longrightarrow> I (store s')"
  unfolding preserves_def by blast

lemma preserves_return: "preserves I (io_return x)"
  by (rule preservesI) (simp add: io_return_eq)

lemma preserves_throw: "preserves I (io_throw e)"
  by (rule preservesI) (simp add: io_throw_eq)

lemma preserves_bind:
  assumes "preserves I m" "\<And>x. preserves I (f x)"
  shows "preserves I (io_bind m f)"
proof (rule preservesI)
  fix s r s'
  assume I: "I (store s)" and run: "io_bind m f s = (r, s')"
  from run show "I (store s')"
  proof (cases rule: io_bind_cases)
    case (Err e)
    then show ?thesis using preservesD[OF assms(1) I] by simp
  next
    case (Ok x s1)
    then show ?thesis using preservesD[OF assms(1) I] preservesD[OF assms(2)] by blast
  qed
qed

lemma preserves_catch:
  assumes "preserves I m" "\<And>e. preserves I (h e)"
  shows "preserves I (io_catch m h)"
proof (rule preservesI)
  fix s r s'
  assume I: "I (store s)" and run: "io_catch m h s = (r, s')"
  from run show "I (store s')"
  proof (cases rule: io_catch_cases)
    case (Err e s1)
    then show ?thesis using preservesD[OF assms(1) I] preservesD[OF assms(2)] by blast
  next
    case (Ok x)
    then show ?thesis using preservesD[OF assms(1) I] by simp
  qed
qed

lemma preserves_if:
  "preserves I a \<Longrightarrow> preserves I b \<Longrightarrow> preserves I (if c then a else b)"
  by simp

lemma preserves_forEach:
  assumes "\<And>x. preserves I (f x)"
  shows "preserves I (io_forEach f xs)"
  by (induction xs) (auto intro: preserves_return preserves_bind assms)

lemma preserves_cache_get: "preserves I (cache_get k)"
  by (rule preservesI) (elim cache_get_cases, simp_all)

lemma preserves_cache_set:
  assumes "\<And>st. I st \<Longrightarrow> I (AList.update k v st)"
  shows "preserves I (cache_set k v ttl)"
  by (rule preservesI) (elim cache_set_cases, simp_all add: assms)

lemma preserves_cache_delete:
  assumes "\<And>st. I st \<Longrightarrow> I (AList.delete k st)"
  shows "preserves I (cache_delete k)"
  by (rule preservesI) (elim cache_delete_cases, simp_all add: assms)

lemma preserves_cache_clear:
  assumes "I []"
  shows "preserves I cache_clear"
  unfolding cache_clear_def
  by (rule preservesI) (elim io_bind_cases store_op_cases, auto simp: assms)

lemma preserves_getAllTags: "preserves I getAllTags"
  unfolding getAllTags_def by (rule preserves_throw)

lemma preserves_getKeysForTag: "preserves I (getKeysForTag t)"
  unfolding getKeysForTag_def Let_def
  by (auto intro!: preserves_bind preserves_cache_get preserves_return)

lemma preserves_getTagsForKey: "preserves I (getTagsForKey k)"
  unfolding getTagsForKey_def Let_def
  by (auto intro!: preserves_bind preserves_cache_get preserves_return)

lemma preserves_deleteKeyFromAllTags:
  assumes "\<And>t. preserves I (removeKeyFromTag k t)" "\<And>st key. I st \<Longrightarrow> I (AList.delete key st)"
  shows "preserves I (deleteKeyFromAllTags k)"
  unfolding deleteKeyFromAllTags_def Let_def
  by (auto intro!: preserves_bind preserves_cache_get preserves_return preserves_forEach
      preserves_cache_delete assms)

lemma preserves_setTagsForKey:
  assumes "\<And>t. preserves I (removeKeyFromTag k t)" "\<And>t. preserves I (addKeyToTag k t)"
    "\<And>st key. I st \<Longrightarrow> I (AList.delete key st)"
    "\<And>st. I st \<Longrightarrow> I (AList.update (getKeyTagMapKey k) (strArr ts) st)"
  shows "preserves I (setTagsForKey k ts)"
  unfolding setTagsForKey_def Let_def
  by (auto intro!: preserves_bind preserves_deleteKeyFromAllTags preserves_return preserves_forEach
      preserves_cache_delete preserves_cache_set assms)


section \<open>Round trip of a tagged set\<close>

text \<open>
  Claim C1, as amended. On a working store, for every key \<open>K\<close> that is not in the tag
  namespace (does not start with \<open>__tag__:\<close>), every value \<open>V\<close> and every
  non-empty tag list \<open>T\<close>, and whatever tags \<open>K\<close> had before:
  \<open>set(K, V, {tags: T})\<close> succeeds, after which \<open>get(K)\<close> returns \<open>V\<close> and
  \<open>getTagsForKey(K)\<close> returns exactly \<open>T\<close> (the list as given).
\<close>

theorem set_with_tags_roundtrip:
  assumes ok: "faults s = []" and T: "T \<noteq> []" and K: "\<not> prefix TAG_PREFIX K"
  shows "\<exists>s'. set_TaggedKeyv K V (Options None (Some T)) tags0 s = (Inr (), s')
           \<and> get_TaggedKeyv K s' = (Inr (Some V), s')
           \<and> getTagsForKey_TaggedKeyv K s' = (Inr T, s')"
proof -
  let ?s1 = "s\<lparr>store := AList.update K V (store s)\<rparr>"
  have s1: "cache_set K V None s = (Inr (), ?s1)" using ok by (rule cache_set_ok)
  have ok1: "faults ?s1 = []" using ok by simp
  obtain u s' where run: "setTagsForKey K T ?s1 = (Inr u, s')" and ok': "faults s' = []"
    using total_ok_setTagsForKey[of K T] ok1 unfolding total_ok_def by blast
  have c1: "io_catch (cache_set K V None) h s = (Inr (), ?s1)" for h
    using s1 by (simp add: io_catch_def)
  have c2: "io_catch (setTagsForKey K T) h ?s1 = (Inr (), s')" for h
    using run by (simp add: io_catch_def)
  have "set_TaggedKeyv K V (Options None (Some T)) tags0 s = (Inr (), s')"
    using T c1 c2 by (simp add: set_TaggedKeyv_def withLock_def io_bind_def)
  moreover have "map_of (store s') K = Some V"
    using setTagsForKey_frame[OF run K map_key_neq_self[symmetric]] by (simp add: update_conv')
  moreover have "map_of (store s') (getKeyTagMapKey K) = Some (strArr T)"
    using setTagsForKey_record[OF run T] .
  ultimately show ?thesis using ok'
    by (simp add: get_TaggedKeyv_ok getTagsForKey_TaggedKeyv_ok getTagsForKey_ok
        isStringArray_strArr asStrings_strArr)
qed

text \<open>The theorem at the store's initial state, with two tags.\<close>

theorem set_with_tags_roundtrip_witness:
  "\<exists>s'. set_TaggedKeyv ''user:1'' (JNum 7) (Options None (Some [''users'', ''active''])) []
            \<lparr>store = [], faults = [], log = []\<rparr> = (Inr (), s')
        \<and> get_TaggedKeyv ''user:1'' s' = (Inr (Some (JNum 7)), s')
        \<and> getTagsForKey_TaggedKeyv ''user:1'' s' = (Inr [''users'', ''active''], s')"
  using set_with_tags_roundtrip[of "\<lparr>store = [], faults = [], log = []\<rparr>" "[''users'', ''active'']"
      "''user:1''" "JNum 7" "[]"]
  by (simp add: TAG_PREFIX_def)

text \<open>
  The claim as stated fails in two ways. With the empty tag list the index is not touched:
  after \<open>set(k, 1, {tags: [a]})\<close> and then \<open>set(k, 2, {tags: []})\<close>, both
  successful, \<open>getTagsForKey(k)\<close> still returns \<open>[a]\<close>, not the empty list. And a key
  in the tag namespace shares its store entry with an index record: after
  \<open>set(__tag__:a, 1, {tags: [a]})\<close>, \<open>get(__tag__:a)\<close> returns the key list of tag
  \<open>a\<close>, not \<open>1\<close>.
\<close>

theorem set_roundtrip_counterexample:
  "fst (set_TaggedKeyv ''k'' (JNum 2) (Options None (Some [])) []
         (snd (set_TaggedKeyv ''k'' (JNum 1) (Options None (Some [''a''])) []
                \<lparr>store = [], faults = [], log = []\<rparr>))) = Inr ()
   \<and> fst (getTagsForKey_TaggedKeyv ''k''
         (snd (set_TaggedKeyv ''k'' (JNum 2) (Options None (Some [])) []
           (snd (set_TaggedKeyv ''k'' (JNum 1) (Options None (Some [''a''])) []
                  \<lparr>store = [], faults = [], log = []\<rparr>))))) = Inr [''a'']
   \<and> fst (set_TaggedKeyv ''__tag__:a'' (JNum 1) (Options None (Some [''a''])) []
                  \<lparr>store = [], faults = [], log = []\<rparr>) = Inr ()
   \<and> fst (get_TaggedKeyv ''__tag__:a''
         (snd (set_TaggedKeyv ''__tag__:a'' (JNum 1) (Options None (Some [''a''])) []
                  \<lparr>store = [], faults = [], log = []\<rparr>))) = Inr (Some (JArr [JStr ''__tag__:a'']))"
  by code_simp

section \<open>A set without tags leaves the index alone\<close>

text \<open>
  Claim C10, as amended. On a working store, for every key \<open>K\<close> that is not in the tag
  namespace (does not start with \<open>__tag__:\<close>), \<open>set(K, V)\<close> with the tags absent or
  the empty list succeeds and writes nothing but the entry of \<open>K\<close>: \<open>get(K)\<close> returns
  \<open>V\<close>, \<open>getTagsForKey(K)\<close> returns what it returned before, and every tag lists the
  keys it listed before, so \<open>K\<close> is still listed under each of its tags.
\<close>

theorem set_without_tags_keeps_index:
  assumes ok: "faults s = []"
    and opts: "opts = Undefined \<or> opts = Options None None \<or> opts = Options None (Some [])"
    and K: "\<not> prefix TAG_PREFIX K"
  shows "\<exists>s'. set_TaggedKeyv K V opts [] s = (Inr (), s')
           \<and> store s' = AList.update K V (store s)
           \<and> get_TaggedKeyv K s' = (Inr (Some V), s')
           \<and> fst (getTagsForKey_TaggedKeyv K s') = fst (getTagsForKey_TaggedKeyv K s)
           \<and> (\<forall>t. fst (getKeysForTag t s') = fst (getKeysForTag t s))"
proof -
  let ?s1 = "s\<lparr>store := AList.update K V (store s)\<rparr>"
  have c1: "io_catch (cache_set K V None) h s = (Inr (), ?s1)" for h
    using cache_set_ok[OF ok] by (simp add: io_catch_def)
  have run: "set_TaggedKeyv K V opts [] s = (Inr (), ?s1)"
    using opts c1 by (auto simp: set_TaggedKeyv_def withLock_def io_bind_def io_return_def)
  have ok1: "faults ?s1 = []" using ok by simp
  have tk: "getTagKey t \<noteq> K" for t using K prefix_getTagKey by auto
  have "get_TaggedKeyv K ?s1 = (Inr (Some V), ?s1)"
    using ok1 by (simp add: get_TaggedKeyv_ok update_conv')
  moreover have "fst (getTagsForKey_TaggedKeyv K ?s1) = fst (getTagsForKey_TaggedKeyv K s)"
    using ok ok1 map_key_neq_self[of K]
    by (simp add: getTagsForKey_TaggedKeyv_ok getTagsForKey_ok update_conv')
  moreover have "fst (getKeysForTag t ?s1) = fst (getKeysForTag t s)" for t
    using ok ok1 tk[of t] by (simp add: getKeysForTag_ok' update_conv')
  ultimately show ?thesis using run by auto
qed

text \<open>The theorem at the state a tagged \<open>set(k, 1, {tags: [a]})\<close> leaves behind.\<close>

theorem set_without_tags_keeps_index_witness:
  "\<exists>s'. set_TaggedKeyv ''k'' (JNum 2) Undefined []
           \<lparr>store = [(''k'', JNum 1), (''__tags__:k'', JArr [JStr ''a'']),
                      (''__tag__:a'', JArr [JStr ''k''])], faults = [], log = []\<rparr> = (Inr (), s')
        \<and> get_TaggedKeyv ''k'' s' = (Inr (Some (JNum 2)), s')
        \<and> fst (getTagsForKey_TaggedKeyv ''k'' s') = Inr [''a'']
        \<and> fst (getKeysForTag ''a'' s') = Inr [''k'']"
proof -
  let ?s = "\<lparr>store = [(''k'', JNum 1), (''__tags__:k'', JArr [JStr ''a'']),
                      (''__tag__:a'', JArr [JStr ''k''])], faults = [], log = []\<rparr>"
  have a: "fst (getTagsForKey_TaggedKeyv ''k'' ?s) = Inr [''a'']" by code_simp
  have b: "fst (getKeysForTag ''a'' ?s) = Inr [''k'']" by code_simp
  have p: "\<not> prefix TAG_PREFIX ''k''" by (simp add: TAG_PREFIX_def)
  show ?thesis
    using set_without_tags_keeps_index[of ?s Undefined "''k''" "JNum 2", OF _ _ p] a b
    by auto
qed

text \<open>
  The claim as stated, for every key, fails for a key in the tag namespace: the entry of
  \<open>__tag__:a\<close> is the key list of tag \<open>a\<close>. After \<open>set(__tag__:a, 1, {tags: [a]})\<close> the
  key is listed under \<open>a\<close>; after \<open>set(__tag__:a, 2)\<close> without tags it no longer is.
\<close>

theorem set_without_tags_counterexample:
  "fst (set_TaggedKeyv ''__tag__:a'' (JNum 1) (Options None (Some [''a''])) []
          \<lparr>store = [], faults = [], log = []\<rparr>) = Inr ()
   \<and> fst (getKeysForTag ''a''
          (snd (set_TaggedKeyv ''__tag__:a'' (JNum 1) (Options None (Some [''a''])) []
                 \<lparr>store = [], faults = [], log = []\<rparr>))) = Inr [''__tag__:a'']
   \<and> fst (set_TaggedKeyv ''__tag__:a'' (JNum 2) Undefined []
          (snd (set_TaggedKeyv ''__tag__:a'' (JNum 1) (Options None (Some [''a''])) []
                 \<lparr>store = [], faults = [], log = []\<rparr>))) = Inr ()
   \<and> fst (getKeysForTag ''a''
          (snd (set_TaggedKeyv ''__tag__:a'' (JNum 2) Undefined []
            (snd (set_TaggedKeyv ''__tag__:a'' (JNum 1) (Options None (Some [''a''])) []
                   \<lparr>store = [], faults = [], log = []\<rparr>))))) = Inr []"
  by code_simp

section \<open>Compaction without a tag list\<close>

text \<open>
  Claim C4, as amended. Called with the tags argument absent, \<open>compact\<close> fails with the
  distinct error "global tag compaction not implemented" and touches nothing, in any state;
  \<open>compactTags\<close> passes that failure on, wrapped. Called with an explicit empty list it
  returns successfully, again touching nothing: the list need not be non-empty.
\<close>

theorem compact_requires_tags_argument:
  "compact None s = (Inl GlobalCompactionNotImplemented, s)
   \<and> compactTags None s = (Inl (FailedToCompactTags GlobalCompactionNotImplemented), s)
   \<and> compact (Some []) s = (Inr (), s)
   \<and> compactTags (Some []) s = (Inr (), s)"
  by (simp add: compact_def compactTags_def io_throw_def io_catch_def io_return_def)

text \<open>
  The claim as stated requires a non-empty list. With the empty list, no tag is given,
  nothing is compacted (the stale record below stays) and yet the call succeeds.
\<close>

theorem compact_empty_list_counterexample:
  "compact (Some []) \<lparr>store = [(''__tag__:a'', JArr [JStr ''gone''])], faults = [], log = []\<rparr>
     = (Inr (), \<lparr>store = [(''__tag__:a'', JArr [JStr ''gone''])], faults = [], log = []\<rparr>)
   \<and> compactTags (Some []) \<lparr>store = [(''__tag__:a'', JArr [JStr ''gone''])], faults = [], log = []\<rparr>
     = (Inr (), \<lparr>store = [(''__tag__:a'', JArr [JStr ''gone''])], faults = [], log = []\<rparr>)"
  by (simp add: compact_def compactTags_def io_catch_def io_return_def)

section \<open>Idempotence of addKeyToTag\<close>

lemma addKeyToTag_ok:
  assumes "faults s = []"
  shows "addKeyToTag K T s =
     (Inr (), if K \<in> set (tagKeys (store s) T) then s
              else s\<lparr>store := AList.update (getTagKey T) (strArr (tagKeys (store s) T @ [K])) (store s)\<rparr>)"
  using assms
  by (simp add: addKeyToTag_def Let_def tagKeys_def io_bind_Inr[OF cache_get_ok] io_return_def cache_set_ok)


lemma tagKeys_update_same: "tagKeys (AList.update (getTagKey T) (strArr ks) st) T = ks"
  by (simp add: tagKeys_def update_conv' isStringArray_strArr asStrings_strArr)

lemma forEach_addKey_present:
  assumes "faults s = []" "K \<in> set (tagKeys (store s) T)"
  shows "io_forEach (\<lambda>k. addKeyToTag k T) (replicate n K) s = (Inr (), s)"
  using assms by (induction n) (simp_all add: io_return_def io_bind_def addKeyToTag_ok)

text \<open>
  Claim C6, as amended. On a working store, if \<open>K\<close> occurs at most once in the key list
  \<open>ks\<close> of tag \<open>T\<close> (as in every list the index has written itself), then after
  \<open>addKeyToTag(K, T)\<close> the list is \<open>ks\<close> with \<open>K\<close> appended if it was absent, and
  \<open>ks\<close> itself otherwise; it contains \<open>K\<close> exactly once; and a second call, or any
  number \<open>n\<close> of further calls, returns the very same state: nothing is written.
\<close>

theorem addKeyToTag_idempotent:
  assumes ok: "faults s = []"
    and ks: "getKeysForTag T s = (Inr ks, s)"
    and once: "count_list ks K \<le> 1"
  shows "\<exists>s1 ks1. addKeyToTag K T s = (Inr (), s1)
           \<and> addKeyToTag K T s1 = (Inr (), s1)
           \<and> io_forEach (\<lambda>k. addKeyToTag k T) (replicate n K) s1 = (Inr (), s1)
           \<and> getKeysForTag T s1 = (Inr ks1, s1)
           \<and> ks1 = (if K \<in> set ks then ks else ks @ [K])
           \<and> count_list ks1 K = 1"
proof -
  have ks_eq: "ks = tagKeys (store s) T"
    using ks ok by (simp add: getKeysForTag_ok' tagKeys_def)
  define s1 where "s1 = (if K \<in> set ks then s
      else s\<lparr>store := AList.update (getTagKey T) (strArr (ks @ [K])) (store s)\<rparr>)"
  define ks1 where "ks1 = (if K \<in> set ks then ks else ks @ [K])"
  have ok1: "faults s1 = []" using ok by (simp add: s1_def)
  have first: "addKeyToTag K T s = (Inr (), s1)"
    using addKeyToTag_ok[OF ok, of K T] by (simp add: s1_def ks_eq)
  have rec: "tagKeys (store s1) T = ks1"
    by (simp add: s1_def ks1_def tagKeys_update_same ks_eq)
  have mem: "K \<in> set ks1" by (simp add: ks1_def)
  have second: "addKeyToTag K T s1 = (Inr (), s1)"
    using addKeyToTag_ok[OF ok1, of K T] mem rec by simp
  have many: "io_forEach (\<lambda>k. addKeyToTag k T) (replicate n K) s1 = (Inr (), s1)"
    using forEach_addKey_present[OF ok1] mem rec by simp
  have read: "getKeysForTag T s1 = (Inr ks1, s1)"
    using ok1 rec by (simp add: getKeysForTag_ok' tagKeys_def)
  have cnt: "count_list ks1 K = 1"
  proof (cases "K \<in> set ks")
    case True
    then have "count_list ks K \<noteq> 0" by (simp add: count_list_0_iff)
    with once True show ?thesis by (simp add: ks1_def)
  next
    case False
    then show ?thesis by (simp add: ks1_def count_list_0_iff)
  qed
  show ?thesis using first second many read cnt ks1_def by blast
qed

text \<open>The theorem for a tag that lists one other key.\<close>

theorem addKeyToTag_idempotent_witness:
  "\<exists>s1. addKeyToTag ''k2'' ''t'' \<lparr>store = [(''__tag__:t'', JArr [JStr ''k1''])], faults = [], log = []\<rparr>
           = (Inr (), s1)
        \<and> addKeyToTag ''k2'' ''t'' s1 = (Inr (), s1)
        \<and> io_forEach (\<lambda>k. addKeyToTag k ''t'') (replicate 5 ''k2'') s1 = (Inr (), s1)
        \<and> getKeysForTag ''t'' s1 = (Inr [''k1'', ''k2''], s1)
        \<and> count_list [''k1'', ''k2''] ''k2'' = 1"
proof -
  let ?s = "\<lparr>store = [(''__tag__:t'', JArr [JStr ''k1''])], faults = [], log = []\<rparr>"
  have r: "getKeysForTag ''t'' ?s = (Inr [''k1''], ?s)" by code_simp
  show ?thesis
    using addKeyToTag_idempotent[of ?s "''t''" "[''k1'']" "''k2''" 5, OF _ r] by auto
qed

text \<open>
  The claim as stated, from any state, fails when the record already lists \<open>K\<close> twice
  (here written through the public \<open>set\<close>, whose keys share the store with the index):
  \<open>addKeyToTag\<close> sees the key, writes nothing, and the key stays listed twice.
\<close>

theorem addKeyToTag_idempotent_counterexample:
  "fst (set_TaggedKeyv ''__tag__:t'' (JArr [JStr ''k'', JStr ''k'']) Undefined []
          \<lparr>store = [], faults = [], log = []\<rparr>) = Inr ()
   \<and> fst (getKeysForTag ''t''
       (snd (addKeyToTag ''k'' ''t''
         (snd (addKeyToTag ''k'' ''t''
           (snd (set_TaggedKeyv ''__tag__:t'' (JArr [JStr ''k'', JStr ''k'']) Undefined []
                  \<lparr>store = [], faults = [], log = []\<rparr>))))))) = Inr [''k'', ''k'']"
  by code_simp

section \<open>Compaction of tags\<close>


lemma dedupe_first_filter: "dedupe_first (filter P xs) = filter P (dedupe_first xs)"
proof (induction xs)
  case Nil
  then show ?case by simp
next
  case (Cons x xs)
  show ?case
  proof (cases "P x")
    case True
    then show ?thesis using Cons by (simp add: conj_commute)
  next
    case False
    have "filter P (filter (\<lambda>y. y \<noteq> x) (dedupe_first xs)) = filter P (dedupe_first xs)"
      using False by (auto intro: filter_cong)
    then show ?thesis using False Cons by simp
  qed
qed

lemma subseq_dedupe_first: "subseq (dedupe_first xs) xs"
proof (induction xs)
  case Nil
  then show ?case by simp
next
  case (Cons x xs)
  have "subseq (filter (\<lambda>y. y \<noteq> x) (dedupe_first xs)) (dedupe_first xs)" by simp
  then have "subseq (filter (\<lambda>y. y \<noteq> x) (dedupe_first xs)) xs"
    using Cons subseq_order.order_trans by blast
  then show ?case by simp
qed

lemma distinct_dedupe_first: "distinct (dedupe_first xs)"
  by (induction xs) auto

lemma set_dedupe_first: "set (dedupe_first xs) = set xs"
  by (induction xs) auto

lemma filtered_same_length:
  "length (filter P (dedupe_first xs)) = length xs \<longleftrightarrow> filter P (dedupe_first xs) = xs"
proof
  assume len: "length (filter P (dedupe_first xs)) = length xs"
  have "subseq (filter P (dedupe_first xs)) xs"
    using subseq_dedupe_first[of xs] subseq_filter_left subseq_order.order_trans by blast
  then show "filter P (dedupe_first xs) = xs" using len by (rule subseq_same_length)
qed simp

lemma compactLoop_ok:
  assumes "faults s = []"
  shows "compactLoop xs seen validKeys s =
     (Inr (validKeys @ filter (\<lambda>k. map_of (store s) k \<noteq> None)
                         (dedupe_first (filter (\<lambda>k. k \<notin> seen) xs))), s)"
proof (induction xs arbitrary: seen validKeys)
  case Nil
  then show ?case by (simp add: io_return_def)
next
  case (Cons key rest)
  show ?case
  proof (cases "key \<in> seen")
    case True
    then show ?thesis using Cons by simp
  next
    case False
    have flt: "filter (\<lambda>y. y \<noteq> key) (dedupe_first (filter (\<lambda>k. k \<notin> seen) rest))
             = dedupe_first (filter (\<lambda>k. k \<notin> insert key seen) rest)"
      by (simp add: dedupe_first_filter[symmetric] conj_commute)
    show ?thesis
      using False Cons[of "insert key seen"] flt
      by (simp add: io_bind_def cache_get_ok[OF assms])
  qed
qed

lemma compactTag_ok:
  assumes ok: "faults s = []"
  shows "compactTag tag s = (Inr (), s\<lparr>store := compacted tag (store s)\<rparr>)"
proof (cases "isStringArray (map_of (store s) (getTagKey tag))")
  case False
  then show ?thesis
    by (simp add: compactTag_def compacted_def Let_def io_bind_def cache_get_ok[OF ok] io_return_def)
next
  case True
  let ?ex = "asStrings (map_of (store s) (getTagKey tag))"
  let ?valid = "filter (\<lambda>k. map_of (store s) k \<noteq> None) (dedupe_first ?ex)"
  have loop: "compactLoop ?ex {} [] s = (Inr ?valid, s)"
    using compactLoop_ok[OF ok, of ?ex "{}" "[]"] by simp
  have len: "length ?valid \<noteq> length ?ex \<longleftrightarrow> ?valid \<noteq> ?ex"
    using filtered_same_length[of "\<lambda>k. map_of (store s) k \<noteq> None" ?ex] by blast
  show ?thesis
    using True len
    by (simp add: compactTag_def compacted_def Let_def io_bind_def cache_get_ok[OF ok]
        loop io_return_def cache_set_ok[OF ok] cache_delete_ok[OF ok])
qed

lemma forEach_compactTag_ok:
  assumes "faults s = []"
  shows "io_forEach compactTag tags s = (Inr (), s\<lparr>store := fold compacted tags (store s)\<rparr>)"
  using assms
proof (induction tags arbitrary: s)
  case Nil
  then show ?case by (simp add: io_return_def)
next
  case (Cons t ts)
  have "faults (s\<lparr>store := compacted t (store s)\<rparr>) = []" using Cons.prems by simp
  from Cons.IH[OF this] show ?case
    by (simp add: io_bind_def compactTag_ok[OF Cons.prems])
qed

text \<open>
  Claim C5, as amended. On a working store, \<open>compact(tags)\<close> succeeds and treats the
  tags of the list one after the other, each on the store the previous ones left: the
  tag's key list is deduplicated keeping the first occurrence of each key, every
  remaining key that holds no value in the store is dropped, and only if the filtered list
  differs from the stored one is anything written: the filtered list, or, when it is
  empty, the deletion of the record. A stored list that is already empty is left in place.
\<close>

theorem compact_tags_effect:
  assumes "faults s = []"
  shows "compact (Some tags) s = (Inr (), s\<lparr>store := fold compacted tags (store s)\<rparr>)"
  using forEach_compactTag_ok[OF assms] by (simp add: compact_def)

text \<open>The theorem for two tags: \<open>u\<close> lists a duplicate and a dead key, \<open>v\<close> only a dead
  key, so the record of \<open>u\<close> is rewritten and that of \<open>v\<close> deleted.\<close>

theorem compact_tags_effect_witness:
  "compact (Some [''u'', ''v''])
     \<lparr>store = [(''__tag__:u'', JArr [JStr ''a'', JStr ''b'', JStr ''a'', JStr ''c'']),
                (''__tag__:v'', JArr [JStr ''b'']),
                (''a'', JNum 1), (''c'', JNum 3)], faults = [], log = []\<rparr>
   = (Inr (), \<lparr>store = [(''__tag__:u'', JArr [JStr ''a'', JStr ''c'']),
                (''a'', JNum 1), (''c'', JNum 3)], faults = [], log = []\<rparr>)"
proof -
  have "fold compacted [''u'', ''v'']
          [(''__tag__:u'', JArr [JStr ''a'', JStr ''b'', JStr ''a'', JStr ''c'']),
           (''__tag__:v'', JArr [JStr ''b'']), (''a'', JNum 1), (''c'', JNum 3)]
        = [(''__tag__:u'', JArr [JStr ''a'', JStr ''c'']), (''a'', JNum 1), (''c'', JNum 3)]"
    by code_simp
  then show ?thesis
    using compact_tags_effect[of "\<lparr>store = [(''__tag__:u'', JArr [JStr ''a'', JStr ''b'', JStr ''a'', JStr ''c'']),
                (''__tag__:v'', JArr [JStr ''b'']),
                (''a'', JNum 1), (''c'', JNum 3)], faults = [], log = []\<rparr>" "[''u'', ''v'']"]
    by simp
qed

text \<open>
  The claim as stated deletes the record whenever the filtered list is empty. A record
  that already holds the empty list is filtered to the empty list, which has the same
  length, so nothing is written and the record is still in the store afterwards.
\<close>

theorem compact_empty_record_counterexample:
  "compact (Some [''a'']) \<lparr>store = [(''__tag__:a'', JArr [])], faults = [], log = []\<rparr>
     = (Inr (), \<lparr>store = [(''__tag__:a'', JArr [])], faults = [], log = []\<rparr>)
   \<and> fst (cache_get ''__tag__:a''
        (snd (compact (Some [''a'']) \<lparr>store = [(''__tag__:a'', JArr [])], faults = [], log = []\<rparr>)))
     = Inr (Some (JArr []))"
  by code_simp

section \<open>Pagination of getByTag\<close>


lemma livePairs_Nil: "livePairs st [] = []"
  by (simp add: livePairs_def)

lemma livePairs_Cons:
  "livePairs st (k # ks) = (case map_of st k of Some v \<Rightarrow> [(k, v)] | None \<Rightarrow> []) @ livePairs st ks"
  by (simp add: livePairs_def)

lemma fetchLoop_ok:
  assumes ok: "faults s = []"
  shows "fetchLoop tag keys results errors deadKeys s =
     (Inr (results @ livePairs (store s) keys, errors,
           deadKeys + length (filter (\<lambda>k. map_of (store s) k = None) keys)), s)"
proof (induction keys arbitrary: results deadKeys)
  case Nil
  then show ?case by (simp add: io_return_def livePairs_Nil)
next
  case (Cons key rest)
  show ?case
  proof (cases "map_of (store s) key")
    case None
    then show ?thesis using Cons[of results "deadKeys + 1"]
      by (simp add: io_bind_def io_catch_def cache_get_ok[OF ok] io_return_def livePairs_Cons)
  next
    case (Some v)
    then show ?thesis using Cons[of "results @ [(key, v)]" deadKeys]
      by (simp add: io_bind_def io_catch_def cache_get_ok[OF ok] io_return_def livePairs_Cons)
  qed
qed

lemma slice_Nil: "slice [] a b = []"
  by (simp add: slice_def)

lemma slice_nonneg:
  assumes "0 \<le> a" "0 \<le> n"
  shows "slice xs a (a + n) = take (nat n) (drop (nat a) xs)"
proof (cases "a < int (length xs)")
  case False
  then show ?thesis using assms by (simp add: slice_def Let_def)
next
  case True
  have "take (nat (min (a + n) (int (length xs)) - a)) (drop (nat a) xs)
      = take (nat n) (drop (nat a) xs)"
  proof (cases "a + n \<le> int (length xs)")
    case True
    then show ?thesis by (simp add: min_def)
  next
    case False
    then have "min (a + n) (int (length xs)) = int (length xs)" by simp
    moreover have "length (drop (nat a) xs) = nat (int (length xs) - a)" using assms by simp
    moreover have "nat (int (length xs) - a) \<le> nat n" using False by simp
    ultimately show ?thesis by simp
  qed
  then show ?thesis using True assms by (simp add: slice_def Let_def min_def)
qed

lemma slice_beyond: "int (length xs) \<le> a \<Longrightarrow> slice xs a b = []"
  by (simp add: slice_def Let_def)

lemma livePairs_hold_values: "(k, v) \<in> set (livePairs st ks) \<Longrightarrow> map_of st k = Some v"
  by (auto simp: livePairs_def split: option.splits)

lemma getByTag_ok:
  assumes ok: "faults s = []"
    and keys: "getKeysForTag tag s = (Inr allKeys, s)"
    and off: "offset = (max 1 (requestedPage opts) - 1) * requestedLimit opts"
    and kf: "keysToFetch = slice allKeys offset (offset + requestedLimit opts)"
  shows "getByTag tag opts s =
           (Inr (livePairs (store s) keysToFetch),
            if filter (\<lambda>k. map_of (store s) k = None) keysToFetch = [] then s
            else s\<lparr>store := compacted tag (store s)\<rparr>)"
proof -
  have pg: "(case opts of None \<Rightarrow> 1 | Some o' \<Rightarrow> (case page o' of None \<Rightarrow> 1 | Some p \<Rightarrow> p))
            = requestedPage opts" by (simp add: requestedPage_def)
  have lm: "(case opts of None \<Rightarrow> 50 | Some o' \<Rightarrow> (case limit o' of None \<Rightarrow> 50 | Some l \<Rightarrow> l))
            = requestedLimit opts" by (simp add: requestedLimit_def)
  let ?dead = "filter (\<lambda>k. map_of (store s) k = None) keysToFetch"
  let ?s' = "if ?dead = [] then s else s\<lparr>store := compacted tag (store s)\<rparr>"
  have cmp: "compact (Some [tag]) s = (Inr (), s\<lparr>store := compacted tag (store s)\<rparr>)"
    using forEach_compactTag_ok[OF ok, of "[tag]"] by (simp add: compact_def)
  have loop: "fetchLoop tag keysToFetch [] [] 0 s
      = (Inr (livePairs (store s) keysToFetch, [], length ?dead), s)"
    using fetchLoop_ok[OF ok, of tag keysToFetch "[]" "[]" 0] by simp
  have body: "io_bind (getKeysForTag tag) (\<lambda>allKeys.
          if length allKeys = 0 then io_return []
          else
            let pg = (case opts of None \<Rightarrow> 1
                      | Some opts \<Rightarrow> (case page opts of None \<Rightarrow> 1 | Some p \<Rightarrow> p));
                lim = (case opts of None \<Rightarrow> 50
                       | Some opts \<Rightarrow> (case limit opts of None \<Rightarrow> 50 | Some l \<Rightarrow> l));
                currentPage = max 1 pg;
                offset = (currentPage - 1) * lim;
                end = offset + lim;
                keysToFetch = slice allKeys offset end
            in
            if length keysToFetch = 0 then io_return []
            else
              io_bind (fetchLoop tag keysToFetch [] [] 0) (\<lambda>(results, errors, deadKeys).
              io_bind
                (if deadKeys > 0
                 then io_catch (compact (Some [tag]))
                        (\<lambda>compactError. console_error (CompactTagArrayFailed tag compactError))
                 else io_return ()) (\<lambda>u.
              io_bind
                (if length errors > 0
                 then console_error (ErrorsDuringGetByTag tag errors)
                 else io_return ()) (\<lambda>u.
              io_return results)))) s
       = (Inr (livePairs (store s) keysToFetch), ?s')"
  proof (cases "allKeys = []")
    case True
    then show ?thesis using keys kf by (simp add: io_bind_def io_return_def slice_Nil livePairs_Nil)
  next
    case False
    show ?thesis
    proof (cases "keysToFetch = []")
      case True
      then show ?thesis using False keys kf off
        by (simp add: io_bind_def io_return_def livePairs_Nil pg lm Let_def)
    next
      case kfne: False
      show ?thesis
        using False kfne keys kf[symmetric] off[symmetric] loop cmp
        by (simp add: io_bind_def io_return_def io_catch_def pg lm Let_def)
    qed
  qed
  show ?thesis
    unfolding getByTag_def by (rule io_catch_Inr) (rule body)
qed

text \<open>
  Claim C3, as amended. On a working store, for every tag and all integer options (page
  defaulting to 1, limit to 50), \<open>getByTag\<close> clamps the page to at least 1, computes the
  offset \<open>(page - 1) * limit\<close> and returns, in the list's order, the (key, value) pairs of
  those keys of \<open>allKeys.slice(offset, offset + limit)\<close> that hold a value; it compacts the
  tag afterwards if one of these keys held none. For a limit that is not negative the
  slice is the keys at the positions from \<open>offset\<close> up to, not including,
  \<open>offset + limit\<close>. A tag with no keys and a page beyond the range both yield the empty
  sequence and leave the state as it was.
\<close>

theorem getByTag_page:
  assumes ok: "faults s = []"
    and keys: "getKeysForTag tag s = (Inr allKeys, s)"
    and off: "offset = (max 1 (requestedPage opts) - 1) * requestedLimit opts"
    and kf: "keysToFetch = slice allKeys offset (offset + requestedLimit opts)"
  shows "getByTag tag opts s =
           (Inr (livePairs (store s) keysToFetch),
            if filter (\<lambda>k. map_of (store s) k = None) keysToFetch = [] then s
            else s\<lparr>store := compacted tag (store s)\<rparr>)
         \<and> (0 \<le> requestedLimit opts \<longrightarrow>
               keysToFetch = take (nat (requestedLimit opts)) (drop (nat offset) allKeys))
         \<and> (allKeys = [] \<or> int (length allKeys) \<le> offset \<longrightarrow>
               getByTag tag opts s = (Inr [], s))"
proof -
  have run: "getByTag tag opts s =
           (Inr (livePairs (store s) keysToFetch),
            if filter (\<lambda>k. map_of (store s) k = None) keysToFetch = [] then s
            else s\<lparr>store := compacted tag (store s)\<rparr>)"
    using ok keys off kf by (rule getByTag_ok)
  have nonneg: "0 \<le> requestedLimit opts \<Longrightarrow>
      keysToFetch = take (nat (requestedLimit opts)) (drop (nat offset) allKeys)"
  proof -
    assume l: "0 \<le> requestedLimit opts"
    then have "0 \<le> offset" using off by simp
    then show ?thesis using slice_nonneg[OF _ l] kf by simp
  qed
  have empty: "allKeys = [] \<or> int (length allKeys) \<le> offset \<Longrightarrow> keysToFetch = []"
    using kf slice_Nil slice_beyond by auto
  show ?thesis using run nonneg empty by (auto simp: livePairs_Nil)
qed

text \<open>The theorem for a tag with three keys, second page of size two.\<close>

theorem getByTag_page_witness:
  "getByTag ''users'' (Some \<lparr>page = Some 2, limit = Some 2\<rparr>)
      \<lparr>store = [(''__tag__:users'', JArr [JStr ''u1'', JStr ''u2'', JStr ''u3'']),
                 (''u1'', JNum 1), (''u2'', JNum 2), (''u3'', JNum 3)], faults = [], log = []\<rparr>
   = (Inr [(''u3'', JNum 3)],
      \<lparr>store = [(''__tag__:users'', JArr [JStr ''u1'', JStr ''u2'', JStr ''u3'']),
                 (''u1'', JNum 1), (''u2'', JNum 2), (''u3'', JNum 3)], faults = [], log = []\<rparr>)
   \<and> slice [''u1'', ''u2'', ''u3''] 2 4 = take 2 (drop 2 [''u1'', ''u2'', ''u3''])"
proof -
  let ?s = "\<lparr>store = [(''__tag__:users'', JArr [JStr ''u1'', JStr ''u2'', JStr ''u3'']),
                 (''u1'', JNum 1), (''u2'', JNum 2), (''u3'', JNum 3)], faults = [], log = []\<rparr>"
  let ?o = "Some \<lparr>page = Some 2, limit = Some 2\<rparr>"
  have k: "getKeysForTag ''users'' ?s = (Inr [''u1'', ''u2'', ''u3''], ?s)" by code_simp
  have p: "requestedPage ?o = 2" and l: "requestedLimit ?o = 2"
    by (simp_all add: requestedPage_def requestedLimit_def)
  have sl: "slice [''u1'', ''u2'', ''u3''] 2 4 = [''u3'']" by code_simp
  have lp: "livePairs (store ?s) [''u3''] = [(''u3'', JNum 3)]" by code_simp
  have d: "filter (\<lambda>k. map_of (store ?s) k = None) [''u3''] = []" by code_simp
  show ?thesis
    using getByTag_page[of ?s "''users''" "[''u1'', ''u2'', ''u3'']" 2 ?o "[''u3'']", OF _ k]
      p l sl lp d
    by simp
qed

text \<open>
  The claim as stated, for every limit, fails for a negative one. With page 1 and limit
  \<open>-1\<close> the offset is 0 and \<open>offset + limit\<close> is \<open>-1\<close>: no position lies in that
  range, but \<open>slice(0, -1)\<close> is the list without its last element, and a pair is
  returned.
\<close>

theorem getByTag_negative_limit_counterexample:
  "(max 1 (requestedPage (Some \<lparr>page = Some 1, limit = Some (- 1)\<rparr>)) - 1)
      * requestedLimit (Some \<lparr>page = Some 1, limit = Some (- 1)\<rparr>) = 0
   \<and> requestedLimit (Some \<lparr>page = Some 1, limit = Some (- 1)\<rparr>) = - 1
   \<and> fst (getByTag ''a'' (Some \<lparr>page = Some 1, limit = Some (- 1)\<rparr>)
          \<lparr>store = [(''__tag__:a'', JArr [JStr ''k1'', JStr ''k2'']),
                     (''k1'', JNum 1), (''k2'', JNum 2)], faults = [], log = []\<rparr>)
       = Inr [(''k1'', JNum 1)]"
  by code_simp

section \<open>Cleanup after a failed tag update\<close>

lemma removeKeyFromTag_absent:
  assumes "removeKeyFromTag k t s = (r, s')" "map_of (store s) k' = None"
  shows "map_of (store s') k' = None"
proof (cases "k' = getTagKey t")
  case False
  then show ?thesis using removeKeyFromTag_frame[OF assms(1)] assms(2) by simp
next
  case True
  then have "\<not> isStringArray (map_of (store s) (getTagKey t))" using assms(2) by simp
  then have "store s' = store s"
    using assms(1) unfolding removeKeyFromTag_def Let_def
    by (elim io_bind_cases cache_get_cases) (auto simp: io_return_eq)
  then show ?thesis using assms(2) by simp
qed

lemma deleteKeyFromAllTags_absent:
  assumes "deleteKeyFromAllTags k s = (r, s')" "map_of (store s) k' = None"
  shows "map_of (store s') k' = None"
proof -
  have "preserves (\<lambda>st. map_of st k' = None) (deleteKeyFromAllTags k)"
  proof (rule preserves_deleteKeyFromAllTags)
    fix t show "preserves (\<lambda>st. map_of st k' = None) (removeKeyFromTag k t)"
      by (rule preservesI) (rule removeKeyFromTag_absent)
  qed (simp add: delete_conv')
  then show ?thesis using assms(2) assms(1) by (rule preservesD)
qed

lemma removeKeyFromTag_log:
  assumes "removeKeyFromTag k t s = (r, s')"
  shows "log s' = log s"
  using assms unfolding removeKeyFromTag_def Let_def
  by (elim io_bind_cases cache_get_cases)
     (auto simp: io_return_eq split: if_splits elim!: cache_set_cases cache_delete_cases io_bind_cases)

lemma forEach_removeKey_log:
  assumes "io_forEach (\<lambda>tag. removeKeyFromTag k tag) ts s = (r, s')"
  shows "log s' = log s"
  by (rule io_forEach_invariant[where I = "\<lambda>s1. log s1 = log s", OF _ _ assms])
     (simp_all add: removeKeyFromTag_log)

lemma tagKeys_update_other: "k \<noteq> getTagKey tag \<Longrightarrow> tagKeys (AList.update k v st) tag = tagKeys st tag"
  by (simp add: tagKeys_def update_conv')

lemma tagKeys_delete_other: "k \<noteq> getTagKey tag \<Longrightarrow> tagKeys (AList.delete k st) tag = tagKeys st tag"
  by (simp add: tagKeys_def delete_conv')

lemma tagKeys_delete_same: "tagKeys (AList.delete (getTagKey tag) st) tag = []"
  by (simp add: tagKeys_def delete_conv')

lemma tagKeys_absent: "map_of st (getTagKey tag) = None \<Longrightarrow> tagKeys st tag = []"
  by (simp add: tagKeys_def)

lemma keyTags_update_other:
  "k \<noteq> getKeyTagMapKey key \<Longrightarrow> keyTags (AList.update k v st) key = keyTags st key"
  by (simp add: keyTags_def update_conv')

lemma keyTags_delete_other:
  "k \<noteq> getKeyTagMapKey key \<Longrightarrow> keyTags (AList.delete k st) key = keyTags st key"
  by (simp add: keyTags_def delete_conv')

lemma keyTags_cong: "map_of st' (getKeyTagMapKey key) = map_of st (getKeyTagMapKey key)
    \<Longrightarrow> keyTags st' key = keyTags st key"
  by (simp add: keyTags_def)

lemma removeKeyFromTag_shrinks:
  assumes "removeKeyFromTag key t s = (r, s')"
  shows "set (tagKeys (store s') tag) \<subseteq> set (tagKeys (store s) tag)"
proof (cases "tag = t")
  case True
  then show ?thesis using removeKeyFromTag_effect[OF assms]
    by (auto simp: tagKeys_update_same tagKeys_delete_same)
next
  case False
  then have "getTagKey t \<noteq> getTagKey tag" by (simp add: getTagKey_inj)
  then show ?thesis using removeKeyFromTag_effect[OF assms]
    by (auto simp: tagKeys_update_other tagKeys_delete_other)
qed

lemma removeKeyFromTag_removed:
  assumes "removeKeyFromTag key t s = (Inr u, s')"
  shows "key \<notin> set (tagKeys (store s') t)"
  using assms unfolding removeKeyFromTag_def Let_def
  by (elim io_bind_cases cache_get_cases)
     (auto simp: io_return_eq tagKeys_def update_conv' delete_conv' isStringArray_strArr asStrings_strArr
           split: if_splits elim!: cache_set_cases cache_delete_cases io_bind_cases)

lemma forEach_removeKey_shrinks:
  assumes "io_forEach (\<lambda>tag. removeKeyFromTag key tag) ts s = (r, s')"
  shows "set (tagKeys (store s') tag) \<subseteq> set (tagKeys (store s) tag)"
proof (rule io_forEach_invariant[where
      I = "\<lambda>s1. set (tagKeys (store s1) tag) \<subseteq> set (tagKeys (store s) tag)", OF _ _ assms])
  fix x s1 r1 s2
  assume "set (tagKeys (store s1) tag) \<subseteq> set (tagKeys (store s) tag)"
    "removeKeyFromTag key x s1 = (r1, s2)"
  then show "set (tagKeys (store s2) tag) \<subseteq> set (tagKeys (store s) tag)"
    using removeKeyFromTag_shrinks by blast
qed simp

lemma forEach_removeKey_removed:
  assumes "io_forEach (\<lambda>tag. removeKeyFromTag key tag) ts s = (Inr u, s')" "t \<in> set ts"
  shows "key \<notin> set (tagKeys (store s') t)"
  using assms
proof (induction ts arbitrary: s)
  case Nil
  then show ?case by simp
next
  case (Cons a ts)
  from Cons.prems(1) have "io_bind (removeKeyFromTag key a)
      (\<lambda>u. io_forEach (\<lambda>tag. removeKeyFromTag key tag) ts) s = (Inr u, s')" by simp
  then show ?case
  proof (cases rule: io_bind_cases)
    case (Ok x s1)
    show ?thesis
    proof (cases "t = a")
      case True
      have "key \<notin> set (tagKeys (store s1) a)" using removeKeyFromTag_removed Ok(1) by simp
      then show ?thesis using forEach_removeKey_shrinks[OF Ok(2), of a] True by auto
    next
      case False
      then have "t \<in> set ts" using Cons.prems(2) by simp
      then show ?thesis using Cons.IH[OF Ok(2)] by simp
    qed
  qed simp
qed

lemma forEach_removeKey_keyTags:
  assumes "io_forEach (\<lambda>tag. removeKeyFromTag key tag) ts s = (r, s')"
  shows "keyTags (store s') k = keyTags (store s) k"
  using forEach_removeKey_frame[OF assms not_prefix_map_key] by (rule keyTags_cong)

lemma addKeyToTag_grows:
  assumes "addKeyToTag key t s = (r, s')"
  shows "set (tagKeys (store s') tag) \<subseteq> set (tagKeys (store s) tag) \<union> (if tag = t then {key} else {})"
proof (cases "tag = t")
  case True
  then show ?thesis using addKeyToTag_effect[OF assms] by (auto simp: tagKeys_update_same)
next
  case False
  then have "getTagKey t \<noteq> getTagKey tag" by (simp add: getTagKey_inj)
  then show ?thesis using addKeyToTag_effect[OF assms] False
    by (auto simp: tagKeys_update_other)
qed

lemma addKeyToTag_keyTags:
  assumes "addKeyToTag key t s = (r, s')"
  shows "keyTags (store s') k = keyTags (store s) k"
  using addKeyToTag_frame[OF assms, of "getKeyTagMapKey k"] tag_key_neq_map_key[of t k]
  by (auto intro: keyTags_cong)

lemma forEach_addKey_grows:
  assumes "io_forEach (\<lambda>tag. addKeyToTag key tag) ts s = (r, s')"
  shows "set (tagKeys (store s') tag) \<subseteq> set (tagKeys (store s) tag) \<union> (if tag \<in> set ts then {key} else {})"
proof (rule io_forEach_invariant[where
      I = "\<lambda>s1. set (tagKeys (store s1) tag) \<subseteq> set (tagKeys (store s) tag) \<union> (if tag \<in> set ts then {key} else {})",
      OF _ _ assms])
  fix x s1 r1 s2
  assume x: "x \<in> set ts"
    and I: "set (tagKeys (store s1) tag) \<subseteq> set (tagKeys (store s) tag) \<union> (if tag \<in> set ts then {key} else {})"
    and run: "addKeyToTag key x s1 = (r1, s2)"
  show "set (tagKeys (store s2) tag) \<subseteq> set (tagKeys (store s) tag) \<union> (if tag \<in> set ts then {key} else {})"
    using addKeyToTag_grows[OF run, of tag] I x by (auto split: if_splits)
qed simp

lemma forEach_addKey_keyTags:
  assumes "io_forEach (\<lambda>tag. addKeyToTag key tag) ts s = (r, s')"
  shows "keyTags (store s') k = keyTags (store s) k"
  using forEach_addKey_frame[OF assms not_prefix_map_key] by (rule keyTags_cong)

lemma deleteKeyFromAllTags_run:
  assumes "deleteKeyFromAllTags k s = (r, s')"
  obtains (Unread) e where "r = Inl e" "store s' = store s"
        | (Malformed) "r = Inr ()" "\<not> isStringArray (map_of (store s) (getKeyTagMapKey k))"
            "store s' = store s"
        | (Interrupted) e s1 where "r = Inl e" "store s1 = store s"
            "io_forEach (\<lambda>tag. removeKeyFromTag k tag) (keyTags (store s) k) s1 = (Inl e, s')"
        | (Kept) e s1 s2 where "r = Inl e" "store s1 = store s"
            "io_forEach (\<lambda>tag. removeKeyFromTag k tag) (keyTags (store s) k) s1 = (Inr (), s2)"
            "store s' = store s2"
        | (Done) s1 s2 where "r = Inr ()" "store s1 = store s"
            "io_forEach (\<lambda>tag. removeKeyFromTag k tag) (keyTags (store s) k) s1 = (Inr (), s2)"
            "store s' = AList.delete (getKeyTagMapKey k) (store s2)"
  using assms unfolding deleteKeyFromAllTags_def Let_def
proof (cases rule: io_bind_cases)
  case (Err e)
  then show ?thesis using Unread by (elim cache_get_cases) auto
next
  case (Ok x s1)
  from Ok(1) have s1: "store s1 = store s" "x = map_of (store s) (getKeyTagMapKey k)"
    by (elim cache_get_cases; simp)+
  show ?thesis
  proof (cases "isStringArray x")
    case False
    with Ok(2) show ?thesis using s1 Malformed by (simp add: io_return_eq)
  next
    case True
    then have ks: "asStrings x = keyTags (store s) k" using s1 by (simp add: keyTags_def)
    from True Ok(2) have "io_bind (io_forEach (\<lambda>tag. removeKeyFromTag k tag) (keyTags (store s) k))
        (\<lambda>u. io_bind (cache_delete (getKeyTagMapKey k)) (\<lambda>b. io_return ())) s1 = (r, s')"
      by (simp add: ks)
    then show ?thesis
    proof (cases rule: io_bind_cases)
      case (Err e)
      then show ?thesis using Interrupted[of e s1] s1 by simp
    next
      case inner: (Ok u s2)
      from inner(2) show ?thesis
      proof (cases rule: io_bind_cases)
        case (Err e)
        then have "store s' = store s2" by (elim cache_delete_cases) auto
        then show ?thesis using Kept[of e s1 s2] Err(2) s1 inner(1) by simp
      next
        case del: (Ok b s3)
        then have "s' = s3" "r = Inr ()" by (simp_all add: io_return_eq)
        moreover from del(1) have "store s3 = AList.delete (getKeyTagMapKey k) (store s2)"
          by (elim cache_delete_cases; simp)+
        ultimately show ?thesis using Done[of s1 s2] s1 inner(1) by simp
      qed
    qed
  qed
qed

lemma deleteKeyFromAllTags_log:
  assumes "deleteKeyFromAllTags k s = (r, s')"
  shows "log s' = log s"
  using assms unfolding deleteKeyFromAllTags_def Let_def
  by (elim io_bind_cases cache_get_cases)
     (auto simp: io_return_eq dest: forEach_removeKey_log split: if_splits
           elim!: io_bind_cases cache_delete_cases)

lemma deleteKeyFromAllTags_record:
  assumes "deleteKeyFromAllTags k s = (Inr u, s')"
  shows "keyTags (store s') k = []"
  using assms
proof (cases rule: deleteKeyFromAllTags_run)
  case Malformed
  then show ?thesis by (simp add: keyTags_def)
next
  case (Done s1 s2)
  then show ?thesis by (simp add: keyTags_def delete_conv')
qed simp_all

text \<open>Whatever its outcome, \<open>deleteKeyFromAllTags\<close> adds the key to no key list and leaves
  the key's KeyTagsRecord as it was or empty.\<close>

lemma deleteKeyFromAllTags_shrinks:
  assumes "deleteKeyFromAllTags k s = (r, s')"
  shows "set (tagKeys (store s') tag) \<subseteq> set (tagKeys (store s) tag)"
  using assms
proof (cases rule: deleteKeyFromAllTags_run)
  case (Interrupted e s1)
  then show ?thesis using forEach_removeKey_shrinks[OF Interrupted(3), of tag] by simp
next
  case (Kept e s1 s2)
  then show ?thesis using forEach_removeKey_shrinks[OF Kept(3), of tag] by simp
next
  case (Done s1 s2)
  then show ?thesis using forEach_removeKey_shrinks[OF Done(3), of tag]
    by (simp add: tagKeys_delete_other tag_key_neq_map_key[symmetric])
qed simp_all

lemma deleteKeyFromAllTags_keyTags:
  assumes "deleteKeyFromAllTags k s = (r, s')"
  shows "keyTags (store s') k = [] \<or> keyTags (store s') k = keyTags (store s) k"
  using assms
proof (cases rule: deleteKeyFromAllTags_run)
  case (Interrupted e s1)
  then show ?thesis using forEach_removeKey_keyTags[OF Interrupted(3), of k] by simp
next
  case (Kept e s1 s2)
  then show ?thesis using forEach_removeKey_keyTags[OF Kept(3), of k] by simp
next
  case (Done s1 s2)
  then show ?thesis by (simp add: keyTags_def delete_conv')
qed simp_all

text \<open>A successful \<open>deleteKeyFromAllTags\<close> has removed the key from the key list of every
  tag that the key's KeyTagsRecord named.\<close>

lemma deleteKeyFromAllTags_removed:
  assumes "deleteKeyFromAllTags k s = (Inr u, s')" "tag \<in> set (keyTags (store s) k)"
  shows "k \<notin> set (tagKeys (store s') tag)"
  using assms(1)
proof (cases rule: deleteKeyFromAllTags_run)
  case Malformed
  then show ?thesis using assms(2) by (simp add: keyTags_def)
next
  case (Done s1 s2)
  have "k \<notin> set (tagKeys (store s2) tag)"
    using forEach_removeKey_removed[OF Done(3) assms(2)] .
  then show ?thesis using Done(4) by (simp add: tagKeys_delete_other tag_key_neq_map_key[symmetric])
qed simp_all

lemma key_recordedI:
  "(\<And>tag. key \<in> set (tagKeys st tag) \<Longrightarrow> getTagKey tag \<noteq> key \<Longrightarrow> tag \<in> set (keyTags st key))
     \<Longrightarrow> key_recorded st key"
  unfolding key_recorded_def by blast

lemma key_recordedD:
  "key_recorded st key \<Longrightarrow> key \<in> set (tagKeys st tag) \<Longrightarrow> getTagKey tag \<noteq> key
     \<Longrightarrow> tag \<in> set (keyTags st key)"
  unfolding key_recorded_def by blast

lemma key_recorded_shrunk:
  assumes "key_recorded st key" "\<And>tag. set (tagKeys st' tag) \<subseteq> set (tagKeys st tag)"
    "keyTags st' key = keyTags st key"
  shows "key_recorded st' key"
  using assms unfolding key_recorded_def by (metis subsetD)

lemma deleteKeyFromAllTags_recorded:
  assumes run: "deleteKeyFromAllTags k s = (r, s')" and rec: "key_recorded (store s) k"
  shows "key_recorded (store s') k"
proof (cases "keyTags (store s') k = keyTags (store s) k")
  case True
  show ?thesis
    by (rule key_recorded_shrunk[OF rec _ True]) (rule deleteKeyFromAllTags_shrinks[OF run])
next
  case False
  then have e: "keyTags (store s') k = []" using deleteKeyFromAllTags_keyTags[OF run] by blast
  from run False obtain s1 s2 where d: "r = Inr ()"
    "io_forEach (\<lambda>tag. removeKeyFromTag k tag) (keyTags (store s) k) s1 = (Inr (), s2)"
    by (cases rule: deleteKeyFromAllTags_run)
       (auto dest: forEach_removeKey_keyTags[where k = k])
  show ?thesis
  proof (rule key_recordedI)
    fix tag assume in': "k \<in> set (tagKeys (store s') tag)" and ne: "getTagKey tag \<noteq> k"
    then have "k \<in> set (tagKeys (store s) tag)" using deleteKeyFromAllTags_shrinks[OF run] by blast
    with rec have "tag \<in> set (keyTags (store s) k)" using ne by (rule key_recordedD)
    then have "k \<notin> set (tagKeys (store s') tag)"
      using deleteKeyFromAllTags_removed run d(1) by blast
    then show "tag \<in> set (keyTags (store s') k)" using in' by simp
  qed
qed

text \<open>After a successful \<open>deleteKeyFromAllTags\<close> on a recorded key, no key list holds the
  key (but a key list stored under the key itself).\<close>

lemma deleteKeyFromAllTags_unlisted:
  assumes run: "deleteKeyFromAllTags k s = (Inr u, s')" and rec: "key_recorded (store s) k"
    and "getTagKey tag \<noteq> k"
  shows "k \<notin> set (tagKeys (store s') tag)"
proof
  assume in': "k \<in> set (tagKeys (store s') tag)"
  have "key_recorded (store s') k" using run rec by (rule deleteKeyFromAllTags_recorded)
  then have "tag \<in> set (keyTags (store s') k)" using in' assms(3) by (rule key_recordedD)
  then show False using deleteKeyFromAllTags_record[OF run] by simp
qed

lemma keyTags_update_same: "keyTags (AList.update (getKeyTagMapKey k) (strArr ts) st) k = ts"
  by (simp add: keyTags_def update_conv' isStringArray_strArr asStrings_strArr)

lemma tagKeys_delete_subset: "set (tagKeys (AList.delete k st) tag) \<subseteq> set (tagKeys st tag)"
  by (cases "k = getTagKey tag") (simp_all add: tagKeys_delete_same tagKeys_delete_other)

lemma key_recorded_update_self: "key_recorded st k \<Longrightarrow> key_recorded (AList.update k v st) k"
  unfolding key_recorded_def
  by (metis tagKeys_update_other keyTags_update_other map_key_neq_self)

lemma key_recorded_delete_self: "key_recorded st k \<Longrightarrow> key_recorded (AList.delete k st) k"
  unfolding key_recorded_def
  by (metis tagKeys_delete_other keyTags_delete_other map_key_neq_self)

lemma setTagsForKey_recorded:
  assumes run: "setTagsForKey k ts s = (r, s')" and rec: "key_recorded (store s) k"
  shows "key_recorded (store s') k"
  using run unfolding setTagsForKey_def Let_def
proof (cases rule: io_bind_cases)
  case (Err e)
  then show ?thesis using rec deleteKeyFromAllTags_recorded by blast
next
  case (Ok u sa)
  have unl: "k \<notin> set (tagKeys (store sa) tag)" if "getTagKey tag \<noteq> k" for tag
    using Ok(1) rec that by (rule deleteKeyFromAllTags_unlisted)
  show ?thesis
  proof (cases "ts = []")
    case True
    with Ok(2) have "io_bind (cache_delete (getKeyTagMapKey k)) (\<lambda>b. io_return ()) sa = (r, s')"
      by simp
    then have "store s' = store sa \<or> store s' = AList.delete (getKeyTagMapKey k) (store sa)"
      by (elim io_bind_cases cache_delete_cases) (auto simp: io_return_eq)
    then have "tagKeys (store s') tag = tagKeys (store sa) tag" for tag
      by (auto simp: tagKeys_delete_other tag_key_neq_map_key[symmetric])
    then show ?thesis using unl by (auto intro: key_recordedI)
  next
    case False
    with Ok(2) have "io_bind (cache_set (getKeyTagMapKey k) (strArr ts) None)
        (\<lambda>u. io_forEach (\<lambda>tag. addKeyToTag k tag) ts) sa = (r, s')" by simp
    then show ?thesis
    proof (cases rule: io_bind_cases)
      case (Err e)
      then have "store s' = store sa" by (elim cache_set_cases) auto
      then show ?thesis using unl by (auto intro: key_recordedI)
    next
      case wr: (Ok u' sb)
      from wr(1) have sb: "store sb = AList.update (getKeyTagMapKey k) (strArr ts) (store sa)"
        by (elim cache_set_cases) auto
      have kt: "keyTags (store s') k = ts"
        using forEach_addKey_keyTags[OF wr(2), of k] sb by (simp add: keyTags_update_same)
      show ?thesis
      proof (rule key_recordedI)
        fix tag assume in': "k \<in> set (tagKeys (store s') tag)" and ne: "getTagKey tag \<noteq> k"
        have "tagKeys (store sb) tag = tagKeys (store sa) tag"
          using sb by (simp add: tagKeys_update_other tag_key_neq_map_key[symmetric])
        then have "k \<notin> set (tagKeys (store sb) tag)" using unl[OF ne] by simp
        then have "tag \<in> set ts" using forEach_addKey_grows[OF wr(2), of tag] in'
          by (auto split: if_splits)
        then show "tag \<in> set (keyTags (store s') k)" using kt by simp
      qed
    qed
  qed
qed

text \<open>The three ways \<open>cleanupFailedSet\<close> can go: its delete of the key fails and nothing is
  changed; the delete succeeds and the cleanup of the index fails; both succeed. The first
  two write one message to the log, the third writes none. It never throws.\<close>

lemma cleanupFailedSet_run:
  assumes "cleanupFailedSet K s = (r, s')"
  obtains (Untouched) e' s1 where "r = Inr ()" "cache_delete K s = (Inl e', s1)"
            "store s' = store s" "log s' = log s @ [CleanupAfterSetFailed e']"
        | (Partial) b s1 e' s2 where "r = Inr ()" "cache_delete K s = (Inr b, s1)"
            "store s1 = AList.delete K (store s)"
            "deleteKeyFromAllTags K s1 = (Inl e', s2)" "store s' = store s2"
            "log s' = log s @ [CleanupAfterSetFailed e']"
        | (Clean) b s1 where "r = Inr ()" "cache_delete K s = (Inr b, s1)"
            "store s1 = AList.delete K (store s)"
            "deleteKeyFromAllTags K s1 = (Inr (), s')" "log s' = log s"
  using assms unfolding cleanupFailedSet_def
proof (cases rule: io_catch_cases)
  case (Err e s3)
  from Err(2) have fin: "r = Inr ()" "store s' = store s3" "log s' = log s3 @ [CleanupAfterSetFailed e]"
    by (auto simp: console_error_def)
  from Err(1) show ?thesis
  proof (cases rule: io_bind_cases)
    case del: (Err e0)
    then have "store s3 = store s" "log s3 = log s" by (elim cache_delete_cases; simp)+
    then show ?thesis using Untouched[of e s3] del fin by simp
  next
    case (Ok b s1)
    from Ok(1) have "store s1 = AList.delete K (store s)" "log s1 = log s"
      by (elim cache_delete_cases; simp)+
    then show ?thesis using Partial[of b s1 e s3] Ok fin deleteKeyFromAllTags_log[OF Ok(2)] by simp
  qed
next
  case (Ok x)
  from Ok(1) show ?thesis
  proof (cases rule: io_bind_cases)
    case inner: (Ok b s1)
    from inner(1) have "store s1 = AList.delete K (store s)" "log s1 = log s"
      by (elim cache_delete_cases; simp)+
    then show ?thesis using Clean[of b s1] inner Ok(2) deleteKeyFromAllTags_log[OF inner(2)] by simp
  qed simp
qed

lemma total_ok_cleanup_body: "total_ok (io_bind (cache_delete K) (\<lambda>b. deleteKeyFromAllTags K))"
  by (intro total_ok_bind total_ok_cache_delete total_ok_deleteKeyFromAllTags)

lemma getKeysForTag_reads_tagKeys:
  "faults s = [] \<Longrightarrow> getKeysForTag tag s = (Inr (tagKeys (store s) tag), s)"
  by (simp add: getKeysForTag_ok' tagKeys_def)

lemma getByTag_never_lists_absent_key:
  assumes ok: "faults s = []" and gone: "map_of (store s) K = None"
  shows "\<exists>r s''. getByTag tag opts s = (Inr r, s'') \<and> K \<notin> fst ` set r"
proof -
  obtain allKeys where keys: "getKeysForTag tag s = (Inr allKeys, s)"
    using ok by (simp add: getKeysForTag_ok')
  have "getByTag tag opts s =
      (Inr (livePairs (store s) (slice allKeys ((max 1 (requestedPage opts) - 1) * requestedLimit opts)
              ((max 1 (requestedPage opts) - 1) * requestedLimit opts + requestedLimit opts))),
       if filter (\<lambda>k. map_of (store s) k = None)
            (slice allKeys ((max 1 (requestedPage opts) - 1) * requestedLimit opts)
              ((max 1 (requestedPage opts) - 1) * requestedLimit opts + requestedLimit opts)) = [] then s
       else s\<lparr>store := compacted tag (store s)\<rparr>)"
    using ok keys refl refl by (rule getByTag_ok)
  moreover have "K \<notin> fst ` set (livePairs (store s) ks)" for ks
    using gone livePairs_hold_values by fastforce
  ultimately show ?thesis by blast
qed

text \<open>What the cleanup leaves, whatever fails in it.\<close>

lemma cleanupFailedSet_leaves:
  assumes c: "cleanupFailedSet K s = (r, s')"
  shows "r = Inr ()"
    and "log s' = log s \<or> (\<exists>e'. log s' = log s @ [CleanupAfterSetFailed e'])"
    and "map_of (store s') K = None
         \<or> (store s' = store s \<and> (\<exists>e'. log s' = log s @ [CleanupAfterSetFailed e']))"
    and "(\<exists>b s3. cache_delete K s = (Inr b, s3)) \<longrightarrow> map_of (store s') K = None"
    and "set (tagKeys (store s') tag) \<subseteq> set (tagKeys (store s) tag)"
    and "keyTags (store s') K = [] \<or> keyTags (store s') K = keyTags (store s) K"
proof -
  show "r = Inr ()" using c by (cases rule: cleanupFailedSet_run) auto
  show "log s' = log s \<or> (\<exists>e'. log s' = log s @ [CleanupAfterSetFailed e'])"
    using c by (cases rule: cleanupFailedSet_run) auto
  have gone: "map_of (store s') K = None"
    if "cache_delete K s = (Inr b, s1)" "store s1 = AList.delete K (store s)"
       "deleteKeyFromAllTags K s1 = (r2, s2)" "store s' = store s2" for b s1 r2 s2
    using deleteKeyFromAllTags_absent[OF that(3), of K] that(2,4) by (simp add: delete_conv')
  show "map_of (store s') K = None
         \<or> (store s' = store s \<and> (\<exists>e'. log s' = log s @ [CleanupAfterSetFailed e']))"
    using c by (cases rule: cleanupFailedSet_run) (auto dest: gone)
  show "(\<exists>b s3. cache_delete K s = (Inr b, s3)) \<longrightarrow> map_of (store s') K = None"
    using c by (cases rule: cleanupFailedSet_run) (auto dest: gone)
  have sub: "set (tagKeys (store s2) tag) \<subseteq> set (tagKeys (store s) tag)"
    if "store s1 = AList.delete K (store s)" "deleteKeyFromAllTags K s1 = (r2, s2)" for s1 r2 s2
    using deleteKeyFromAllTags_shrinks[OF that(2), of tag] tagKeys_delete_subset[of K "store s" tag] that(1)
    by auto
  show "set (tagKeys (store s') tag) \<subseteq> set (tagKeys (store s) tag)"
    using c
  proof (cases rule: cleanupFailedSet_run)
    case (Partial b s1 e' s2)
    then show ?thesis using sub[OF Partial(3,4)] by simp
  next
    case (Clean b s1)
    then show ?thesis using sub[OF Clean(3,4)] by simp
  qed simp
  have kt: "keyTags (store s2) K = [] \<or> keyTags (store s2) K = keyTags (store s) K"
    if "store s1 = AList.delete K (store s)" "deleteKeyFromAllTags K s1 = (r2, s2)" for s1 r2 s2
    using deleteKeyFromAllTags_keyTags[OF that(2)] that(1)
    by (simp add: keyTags_delete_other map_key_neq_self[symmetric])
  show "keyTags (store s') K = [] \<or> keyTags (store s') K = keyTags (store s) K"
    using c
  proof (cases rule: cleanupFailedSet_run)
    case (Partial b s1 e' s2)
    then show ?thesis using kt[OF Partial(3,4)] by simp
  next
    case (Clean b s1)
    then show ?thesis using kt[OF Clean(3,4)] by simp
  qed simp
qed

text \<open>What a cleanup that logs nothing has done.\<close>

lemma cleanupFailedSet_clean:
  assumes c: "cleanupFailedSet K s = (r, s')" and quiet: "log s' = log s"
  shows "map_of (store s') K = None" and "keyTags (store s') K = []"
    and "tag \<in> set (keyTags (store s) K) \<Longrightarrow> K \<notin> set (tagKeys (store s') tag)"
    and "key_recorded (store s) K \<Longrightarrow> K \<notin> set (tagKeys (store s') tag)"
proof -
  from c quiet obtain b s1 where d: "store s1 = AList.delete K (store s)"
    "deleteKeyFromAllTags K s1 = (Inr (), s')"
    by (cases rule: cleanupFailedSet_run) auto
  show gone: "map_of (store s') K = None"
    using deleteKeyFromAllTags_absent[OF d(2), of K] d(1) by (simp add: delete_conv')
  show "keyTags (store s') K = []" using d(2) by (rule deleteKeyFromAllTags_record)
  have kt1: "keyTags (store s1) K = keyTags (store s) K"
    using d(1) by (simp add: keyTags_delete_other map_key_neq_self[symmetric])
  show "K \<notin> set (tagKeys (store s') tag)" if "tag \<in> set (keyTags (store s) K)"
    using deleteKeyFromAllTags_removed[OF d(2)] that kt1 by simp
  show "K \<notin> set (tagKeys (store s') tag)" if rec: "key_recorded (store s) K"
  proof (cases "getTagKey tag = K")
    case True
    then show ?thesis using gone by (simp add: tagKeys_def)
  next
    case False
    have "key_recorded (store s1) K" using rec d(1) by (simp add: key_recorded_delete_self)
    with d(2) show ?thesis using False by (rule deleteKeyFromAllTags_unlisted)
  qed
qed

text \<open>
  Claim C2, as amended. Let \<open>set(K, V, {tags: T})\<close> with non-empty \<open>T\<close> write the value
  successfully and let the tag-index update then fail with error \<open>e\<close>, in state \<open>s2\<close>.
  Then \<open>set\<close> fails with the error "failed to set tags for key \<open>K\<close>" that wraps \<open>e\<close>,
  whatever the cleanup does: a failure of the cleanup is never thrown, it only adds one
  message to the log.

  \<^item> \<open>K\<close> is absent from the store afterwards, unless the cleanup's own delete of \<open>K\<close>
    failed; then the cleanup has changed nothing and has logged the failure.
  \<^item> The cleanup adds \<open>K\<close> to no key list and leaves \<open>K\<close>'s KeyTagsRecord as the failed
    update left it, or empty: tag associations that the failed update did not leave are
    not there afterwards, logged failure or not.
  \<^item> If the cleanup logged nothing, \<open>K\<close> is absent, its KeyTagsRecord is empty, and \<open>K\<close>
    is in the key list of no tag that the record named after the failed update; it is in
    no key list at all if, before the call, every key list holding \<open>K\<close> was recorded for
    \<open>K\<close>.
  \<^item> If the store works again after the failure, the cleanup logs nothing, \<open>get(K)\<close>
    returns undefined, \<open>getTagsForKey(K)\<close> returns no tags, \<open>getByTag\<close> returns \<open>K\<close> for
    no tag and no page, and \<open>getKeysForTag\<close> lists \<open>K\<close> for none of these tags.
\<close>

theorem set_tag_failure_cleanup:
  assumes w: "cache_set K V ttl s = (Inr (), s1)"
    and t: "setTagsForKey K T s1 = (Inl e, s2)"
    and T: "T \<noteq> []"
  shows "\<exists>s'. set_TaggedKeyv K V (Options ttl (Some T)) tags0 s = (Inl (FailedToSetTags K e), s')
           \<and> (log s' = log s2 \<or> (\<exists>e'. log s' = log s2 @ [CleanupAfterSetFailed e']))
           \<and> (map_of (store s') K = None
                \<or> (store s' = store s2 \<and> (\<exists>e'. log s' = log s2 @ [CleanupAfterSetFailed e'])))
           \<and> ((\<exists>b s3. cache_delete K s2 = (Inr b, s3)) \<longrightarrow> map_of (store s') K = None)
           \<and> (\<forall>tag. set (tagKeys (store s') tag) \<subseteq> set (tagKeys (store s2) tag))
           \<and> (keyTags (store s') K = [] \<or> keyTags (store s') K = keyTags (store s2) K)
           \<and> (log s' = log s2 \<longrightarrow>
                 map_of (store s') K = None \<and> keyTags (store s') K = []
                 \<and> (\<forall>tag \<in> set (keyTags (store s2) K). K \<notin> set (tagKeys (store s') tag))
                 \<and> (key_recorded (store s) K \<longrightarrow> (\<forall>tag. K \<notin> set (tagKeys (store s') tag))))
           \<and> (faults s2 = [] \<longrightarrow> log s' = log s2
                 \<and> get_TaggedKeyv K s' = (Inr None, s')
                 \<and> getTagsForKey_TaggedKeyv K s' = (Inr [], s')
                 \<and> (\<forall>tag opts. \<exists>r s''. getByTag tag opts s' = (Inr r, s'') \<and> K \<notin> fst ` set r)
                 \<and> (\<forall>tag \<in> set (keyTags (store s2) K).
                       \<exists>ks. getKeysForTag tag s' = (Inr ks, s') \<and> K \<notin> set ks)
                 \<and> (key_recorded (store s) K \<longrightarrow>
                       (\<forall>tag. \<exists>ks. getKeysForTag tag s' = (Inr ks, s') \<and> K \<notin> set ks)))"
proof -
  obtain r s' where c: "cleanupFailedSet K s2 = (r, s')" by (cases "cleanupFailedSet K s2") auto
  note leaves = cleanupFailedSet_leaves[OF c]
  have c1: "io_catch (cache_set K V ttl) h s = (Inr (), s1)" for h
    using w by (simp add: io_catch_def)
  have run: "set_TaggedKeyv K V (Options ttl (Some T)) tags0 s = (Inl (FailedToSetTags K e), s')"
    using T c1 t c leaves(1)
    by (simp add: set_TaggedKeyv_def withLock_def io_bind_def io_catch_def io_throw_def)
  have rec2: "key_recorded (store s2) K" if rec: "key_recorded (store s) K"
  proof -
    have "store s1 = AList.update K V (store s)" using w by (elim cache_set_cases) auto
    then have "key_recorded (store s1) K" using rec by (simp add: key_recorded_update_self)
    with t show ?thesis by (rule setTagsForKey_recorded)
  qed
  have clean: "map_of (store s') K = None \<and> keyTags (store s') K = []
                 \<and> (\<forall>tag \<in> set (keyTags (store s2) K). K \<notin> set (tagKeys (store s') tag))
                 \<and> (key_recorded (store s) K \<longrightarrow> (\<forall>tag. K \<notin> set (tagKeys (store s') tag)))"
    if quiet: "log s' = log s2"
    using cleanupFailedSet_clean[OF c quiet] rec2 by blast
  have working: "log s' = log s2
                 \<and> get_TaggedKeyv K s' = (Inr None, s')
                 \<and> getTagsForKey_TaggedKeyv K s' = (Inr [], s')
                 \<and> (\<forall>tag opts. \<exists>r s''. getByTag tag opts s' = (Inr r, s'') \<and> K \<notin> fst ` set r)
                 \<and> (\<forall>tag \<in> set (keyTags (store s2) K).
                       \<exists>ks. getKeysForTag tag s' = (Inr ks, s') \<and> K \<notin> set ks)
                 \<and> (key_recorded (store s) K \<longrightarrow>
                       (\<forall>tag. \<exists>ks. getKeysForTag tag s' = (Inr ks, s') \<and> K \<notin> set ks))"
    if ok: "faults s2 = []"
  proof -
    obtain u s3 where b: "io_bind (cache_delete K) (\<lambda>b. deleteKeyFromAllTags K) s2 = (Inr u, s3)"
      and ok3: "faults s3 = []" and l3: "log s3 = log s2"
      using total_ok_cleanup_body[of K] ok unfolding total_ok_def by blast
    have "cleanupFailedSet K s2 = (Inr u, s3)"
      unfolding cleanupFailedSet_def by (rule io_catch_Inr) (rule b)
    then have eq: "s' = s3" using c by simp
    have quiet: "log s' = log s2" using eq l3 by simp
    have ok': "faults s' = []" using eq ok3 by simp
    note cl = clean[OF quiet]
    have g: "get_TaggedKeyv K s' = (Inr None, s')" using ok' cl by (simp add: get_TaggedKeyv_ok)
    have gt: "getTagsForKey_TaggedKeyv K s' = (Inr [], s')"
      using ok' cl by (simp add: getTagsForKey_TaggedKeyv_ok getTagsForKey_ok keyTags_def)
    have gb: "\<forall>tag opts. \<exists>r s''. getByTag tag opts s' = (Inr r, s'') \<and> K \<notin> fst ` set r"
      using getByTag_never_lists_absent_key[OF ok'] cl by blast
    have gk: "getKeysForTag tag s' = (Inr (tagKeys (store s') tag), s')" for tag
      using ok' by (rule getKeysForTag_reads_tagKeys)
    show ?thesis using quiet g gt gb cl by (simp add: gk)
  qed
  show ?thesis
    using run leaves(2,3,4,5,6) clean working by blast
qed

text \<open>The theorem for a store that fails at its sixth operation, when \<open>k\<close> has been added
  to the key list of \<open>a\<close>, the first of two tags: the cleanup removes the value, the
  KeyTagsRecord of \<open>k\<close>, and \<open>k\<close> from the key list of \<open>a\<close>.\<close>

theorem set_tag_failure_cleanup_witness:
  "\<exists>s'. set_TaggedKeyv ''k'' (JNum 1) (Options None (Some [''a'', ''b''])) []
           \<lparr>store = [], faults = [False, False, False, False, False, True], log = []\<rparr>
           = (Inl (FailedToSetTags ''k'' StoreFailure), s')
        \<and> log s' = []
        \<and> map_of (store s') ''k'' = None
        \<and> get_TaggedKeyv ''k'' s' = (Inr None, s')
        \<and> getTagsForKey_TaggedKeyv ''k'' s' = (Inr [], s')
        \<and> (\<exists>r s''. getByTag ''a'' None s' = (Inr r, s'') \<and> ''k'' \<notin> fst ` set r)
        \<and> ''k'' \<notin> set (tagKeys (store s') ''a'')
        \<and> (\<forall>tag. \<exists>ks. getKeysForTag tag s' = (Inr ks, s') \<and> ''k'' \<notin> set ks)"
proof -
  have w: "cache_set ''k'' (JNum 1) None
             \<lparr>store = [], faults = [False, False, False, False, False, True], log = []\<rparr>
           = (Inr (), \<lparr>store = [(''k'', JNum 1)], faults = [False, False, False, False, True],
                        log = []\<rparr>)"
    by code_simp
  have t: "setTagsForKey ''k'' [''a'', ''b'']
             \<lparr>store = [(''k'', JNum 1)], faults = [False, False, False, False, True], log = []\<rparr>
           = (Inl StoreFailure,
              \<lparr>store = [(''k'', JNum 1), (''__tags__:k'', JArr [JStr ''a'', JStr ''b'']),
                         (''__tag__:a'', JArr [JStr ''k''])], faults = [], log = []\<rparr>)"
    by code_simp
  have rec: "key_recorded [] ''k''" by (simp add: key_recorded_def tagKeys_def)
  have named: "''a'' \<in> set (keyTags [(''k'', JNum 1), (''__tags__:k'', JArr [JStr ''a'', JStr ''b'']),
                         (''__tag__:a'', JArr [JStr ''k''])] ''k'')"
    by code_simp
  have del: "\<exists>b s3. cache_delete ''k'' \<lparr>store = [(''k'', JNum 1), (''__tags__:k'', JArr [JStr ''a'', JStr ''b'']),
                         (''__tag__:a'', JArr [JStr ''k''])], faults = [], log = []\<rparr> = (Inr b, s3)"
    by (auto simp: cache_delete_ok)
  from set_tag_failure_cleanup[OF w t, of "[]"]
  obtain s' where
    "set_TaggedKeyv ''k'' (JNum 1) (Options None (Some [''a'', ''b''])) []
           \<lparr>store = [], faults = [False, False, False, False, False, True], log = []\<rparr>
           = (Inl (FailedToSetTags ''k'' StoreFailure), s')"
    "log s' = []" "map_of (store s') ''k'' = None"
    "get_TaggedKeyv ''k'' s' = (Inr None, s')"
    "getTagsForKey_TaggedKeyv ''k'' s' = (Inr [], s')"
    "\<forall>tag opts. \<exists>r s''. getByTag tag opts s' = (Inr r, s'') \<and> ''k'' \<notin> fst ` set r"
    "\<forall>tag \<in> set (keyTags [(''k'', JNum 1), (''__tags__:k'', JArr [JStr ''a'', JStr ''b'']),
                         (''__tag__:a'', JArr [JStr ''k''])] ''k''). ''k'' \<notin> set (tagKeys (store s') tag)"
    "\<forall>tag. \<exists>ks. getKeysForTag tag s' = (Inr ks, s') \<and> ''k'' \<notin> set ks"
    using rec del by auto
  then show ?thesis using named by blast
qed

text \<open>
  The claim as stated has \<open>K\<close> absent and without tag associations after every failed tag
  update. Three runs of \<open>set\<close> that fail with the tag-update error show otherwise.

  \<^item> The store also fails the cleanup's \<open>delete\<close>: the failure is logged and swallowed, and
    \<open>get(k)\<close> still returns the value.
  \<^item> The store fails when \<open>k\<close> is to be added to the second tag \<open>b\<close>, and again when the
    cleanup reads the KeyTagsRecord of \<open>k\<close>: the value is gone, the failure is logged, and
    \<open>getTagsForKey(k)\<close> still returns both tags and \<open>getKeysForTag(a)\<close> still returns \<open>k\<close>.
  \<^item> The key list of a tag \<open>z\<close> holds \<open>k\<close> before the call, and the KeyTagsRecord of \<open>k\<close>
    does not name \<open>z\<close>: the cleanup succeeds and logs nothing, and \<open>getKeysForTag(z)\<close>
    still returns \<open>k\<close>.
\<close>

theorem set_tag_failure_cleanup_counterexample:
  "fst (set_TaggedKeyv ''k'' (JNum 1) (Options None (Some [''a''])) []
          \<lparr>store = [], faults = [False, True, True], log = []\<rparr>)
     = Inl (FailedToSetTags ''k'' StoreFailure)
   \<and> fst (get_TaggedKeyv ''k''
        (snd (set_TaggedKeyv ''k'' (JNum 1) (Options None (Some [''a''])) []
               \<lparr>store = [], faults = [False, True, True], log = []\<rparr>)))
     = Inr (Some (JNum 1))
   \<and> log (snd (set_TaggedKeyv ''k'' (JNum 1) (Options None (Some [''a''])) []
               \<lparr>store = [], faults = [False, True, True], log = []\<rparr>))
     = [CleanupAfterSetFailed StoreFailure]
   \<and> fst (set_TaggedKeyv ''k'' (JNum 1) (Options None (Some [''a'', ''b''])) []
          \<lparr>store = [], faults = [False, False, False, False, False, True, False, True],
            log = []\<rparr>)
     = Inl (FailedToSetTags ''k'' StoreFailure)
   \<and> fst (get_TaggedKeyv ''k''
        (snd (set_TaggedKeyv ''k'' (JNum 1) (Options None (Some [''a'', ''b''])) []
               \<lparr>store = [], faults = [False, False, False, False, False, True, False, True],
                 log = []\<rparr>)))
     = Inr None
   \<and> fst (getTagsForKey_TaggedKeyv ''k''
        (snd (set_TaggedKeyv ''k'' (JNum 1) (Options None (Some [''a'', ''b''])) []
               \<lparr>store = [], faults = [False, False, False, False, False, True, False, True],
                 log = []\<rparr>)))
     = Inr [''a'', ''b'']
   \<and> fst (getKeysForTag ''a''
        (snd (set_TaggedKeyv ''k'' (JNum 1) (Options None (Some [''a'', ''b''])) []
               \<lparr>store = [], faults = [False, False, False, False, False, True, False, True],
                 log = []\<rparr>)))
     = Inr [''k'']
   \<and> log (snd (set_TaggedKeyv ''k'' (JNum 1) (Options None (Some [''a'', ''b''])) []
               \<lparr>store = [], faults = [False, False, False, False, False, True, False, True],
                 log = []\<rparr>))
     = [CleanupAfterSetFailed StoreFailure]
   \<and> fst (set_TaggedKeyv ''k'' (JNum 1) (Options None (Some [''a''])) []
          \<lparr>store = [(''__tag__:z'', JArr [JStr ''k''])], faults = [False, True], log = []\<rparr>)
     = Inl (FailedToSetTags ''k'' StoreFailure)
   \<and> log (snd (set_TaggedKeyv ''k'' (JNum 1) (Options None (Some [''a''])) []
               \<lparr>store = [(''__tag__:z'', JArr [JStr ''k''])], faults = [False, True],
                 log = []\<rparr>))
     = []
   \<and> fst (getKeysForTag ''z''
        (snd (set_TaggedKeyv ''k'' (JNum 1) (Options None (Some [''a''])) []
               \<lparr>store = [(''__tag__:z'', JArr [JStr ''k''])], faults = [False, True],
                 log = []\<rparr>)))
     = Inr [''k'']"
  by code_simp


section \<open>Duplicate-free index records\<close>


lemma not_tags_prefix_tag_key: "\<not> prefix KEY_TAGS_PREFIX (getTagKey t)"
  by (simp add: getTagKey_def TAG_PREFIX_def KEY_TAGS_PREFIX_def)

lemma prefix_map_key: "prefix KEY_TAGS_PREFIX (getKeyTagMapKey k)"
  by (simp add: getKeyTagMapKey_def)

lemma keys_inv_update:
  assumes "keys_inv st" "distinct (asStrings (Some v)) \<or> \<not> prefix TAG_PREFIX k"
  shows "keys_inv (AList.update k v st)"
  unfolding keys_inv_def
proof
  fix tag
  show "distinct (tagKeys (AList.update k v st) tag)"
  proof (cases "getTagKey tag = k")
    case True
    then have "distinct (asStrings (Some v))" using assms(2) prefix_getTagKey[of tag] by auto
    then show ?thesis using True by (simp add: tagKeys_def update_conv')
  next
    case False
    then have "tagKeys (AList.update k v st) tag = tagKeys st tag"
      by (simp add: tagKeys_def update_conv')
    then show ?thesis using assms(1) by (simp add: keys_inv_def)
  qed
qed

lemma keys_inv_delete:
  assumes "keys_inv st"
  shows "keys_inv (AList.delete k st)"
  unfolding keys_inv_def
proof
  fix tag
  have "distinct (tagKeys st tag)" using assms by (simp add: keys_inv_def)
  then show "distinct (tagKeys (AList.delete k st) tag)"
    by (cases "getTagKey tag = k") (auto simp: tagKeys_def delete_conv' split: if_splits)
qed

lemma tags_inv_update:
  assumes "tags_inv st" "distinct (asStrings (Some v)) \<or> \<not> prefix KEY_TAGS_PREFIX k"
  shows "tags_inv (AList.update k v st)"
  unfolding tags_inv_def
proof
  fix key
  show "distinct (keyTags (AList.update k v st) key)"
  proof (cases "getKeyTagMapKey key = k")
    case True
    then have "distinct (asStrings (Some v))" using assms(2) prefix_map_key[of key] by auto
    then show ?thesis using True by (simp add: keyTags_def update_conv')
  next
    case False
    then have "keyTags (AList.update k v st) key = keyTags st key"
      by (simp add: keyTags_def update_conv')
    then show ?thesis using assms(1) by (simp add: tags_inv_def)
  qed
qed

lemma tags_inv_delete:
  assumes "tags_inv st"
  shows "tags_inv (AList.delete k st)"
  unfolding tags_inv_def
proof
  fix key
  have "distinct (keyTags st key)" using assms by (simp add: tags_inv_def)
  then show "distinct (keyTags (AList.delete k st) key)"
    by (cases "getKeyTagMapKey key = k") (auto simp: keyTags_def delete_conv' split: if_splits)
qed

lemma addKeyToTag_keys_inv:
  assumes "addKeyToTag key tag s = (r, s')" "keys_inv (store s)"
  shows "keys_inv (store s')"
proof -
  have "distinct (tagKeys (store s) tag)" using assms(2) by (simp add: keys_inv_def)
  then show ?thesis
    using addKeyToTag_effect[OF assms(1)] assms(2)
    by (auto simp: asStrings_strArr intro!: keys_inv_update)
qed

lemma addKeyToTag_tags_inv:
  assumes "addKeyToTag key tag s = (r, s')" "tags_inv (store s)"
  shows "tags_inv (store s')"
  using addKeyToTag_effect[OF assms(1)] assms(2)
  by (auto simp: not_tags_prefix_tag_key intro!: tags_inv_update)

lemma removeKeyFromTag_keys_inv:
  assumes "removeKeyFromTag key tag s = (r, s')" "keys_inv (store s)"
  shows "keys_inv (store s')"
proof -
  have "distinct (tagKeys (store s) tag)" using assms(2) by (simp add: keys_inv_def)
  then show ?thesis
    using removeKeyFromTag_effect[OF assms(1)] assms(2)
    by (auto simp: asStrings_strArr intro!: keys_inv_update keys_inv_delete)
qed

lemma removeKeyFromTag_tags_inv:
  assumes "removeKeyFromTag key tag s = (r, s')" "tags_inv (store s)"
  shows "tags_inv (store s')"
  using removeKeyFromTag_effect[OF assms(1)] assms(2)
  by (auto simp: not_tags_prefix_tag_key intro!: tags_inv_update tags_inv_delete)


lemma getTagsForKey_cases:
  assumes "getTagsForKey key s = (r, s')"
  obtains (Ok) "r = Inr (keyTags (store s) key)" "store s' = store s"
        | (Err) e where "r = Inl e" "store s' = store s"
  using assms unfolding getTagsForKey_def Let_def keyTags_def
  by (elim io_bind_cases cache_get_cases) (auto simp: io_return_eq split: if_splits)

lemma untag_step_effect:
  assumes "io_bind (getTagsForKey key) (\<lambda>keyTags.
              let updatedTags = filter (\<lambda>t. t \<noteq> tag) keyTags in
              if length updatedTags > 0
              then cache_set (getKeyTagMapKey key) (strArr updatedTags) None
              else io_bind (cache_delete (getKeyTagMapKey key)) (\<lambda>b. io_return ())) s = (r, s')"
  shows "store s' = store s
       \<or> store s' = AList.update (getKeyTagMapKey key)
                      (strArr (filter (\<lambda>t. t \<noteq> tag) (keyTags (store s) key))) (store s)
       \<or> store s' = AList.delete (getKeyTagMapKey key) (store s)"
  using assms unfolding Let_def
  by (elim io_bind_cases getTagsForKey_cases)
     (auto simp: io_return_eq split: if_splits elim!: cache_set_cases cache_delete_cases io_bind_cases)

lemma preserves_deleteTag:
  assumes step: "\<And>key. preserves I (io_bind (getTagsForKey key) (\<lambda>keyTags.
              let updatedTags = filter (\<lambda>t. t \<noteq> tag) keyTags in
              if length updatedTags > 0
              then cache_set (getKeyTagMapKey key) (strArr updatedTags) None
              else io_bind (cache_delete (getKeyTagMapKey key)) (\<lambda>b. io_return ())))"
    and del: "\<And>st key. I st \<Longrightarrow> I (AList.delete key st)"
  shows "preserves I (deleteTag tag)"
  unfolding deleteTag_def Let_def
  by (intro step[unfolded Let_def] preserves_forEach preserves_if preserves_bind
      preserves_cache_get preserves_cache_delete preserves_return del)

lemma compactLoop_run:
  assumes "compactLoop xs seen validKeys s = (r, s')"
  shows "store s' = store s
       \<and> (\<forall>v. r = Inr v \<longrightarrow> distinct validKeys \<longrightarrow> set validKeys \<subseteq> seen \<longrightarrow> distinct v)"
  using assms
proof (induction xs arbitrary: seen validKeys s)
  case Nil
  then show ?case by (simp add: io_return_eq)
next
  case (Cons key rest)
  show ?case
  proof (cases "key \<in> seen")
    case True
    with Cons.prems have "compactLoop rest seen validKeys s = (r, s')" by simp
    from Cons.IH[OF this] show ?thesis .
  next
    case False
    with Cons.prems have "io_bind (cache_get key) (\<lambda>v.
             compactLoop rest (insert key seen)
               (if v \<noteq> None then validKeys @ [key] else validKeys)) s = (r, s')" by simp
    then show ?thesis
    proof (cases rule: io_bind_cases)
      case (Err e)
      then show ?thesis by (elim cache_get_cases) auto
    next
      case (Ok x s1)
      from Ok(1) have s1: "store s1 = store s" by (elim cache_get_cases) auto
      from Cons.IH[OF Ok(2)] s1 False show ?thesis by (auto split: if_splits)
    qed
  qed
qed

lemma compactTag_effect:
  assumes "compactTag tag s = (r, s')"
  shows "store s' = store s
       \<or> store s' = AList.delete (getTagKey tag) (store s)
       \<or> (\<exists>v. distinct v \<and> store s' = AList.update (getTagKey tag) (strArr v) (store s))"
  using assms unfolding compactTag_def Let_def
proof (cases rule: io_bind_cases)
  case (Err e)
  then show ?thesis by (elim cache_get_cases) auto
next
  case (Ok x s1)
  from Ok(1) have s1: "store s1 = store s" by (elim cache_get_cases) auto
  show ?thesis
  proof (cases "isStringArray x")
    case False
    then show ?thesis using Ok(2) s1 by (simp add: io_return_eq)
  next
    case True
    with Ok(2) have "io_bind (compactLoop (asStrings x) {} []) (\<lambda>validKeys.
               if length validKeys \<noteq> length (asStrings x)
               then (if length validKeys > 0
                     then cache_set (getTagKey tag) (strArr validKeys) None
                     else io_bind (cache_delete (getTagKey tag)) (\<lambda>b. io_return ()))
               else io_return ()) s1 = (r, s')" by simp
    then show ?thesis
    proof (cases rule: io_bind_cases)
      case (Err e)
      then show ?thesis using compactLoop_run[of "asStrings x" "{}" "[]" s1] s1 by simp
    next
      case inner: (Ok v s2)
      have s2: "store s2 = store s" and dv: "distinct v"
        using compactLoop_run[OF inner(1)] s1 by simp_all
      from inner(2) show ?thesis using s2 dv
        by (auto simp: io_return_eq split: if_splits
            elim!: cache_set_cases cache_delete_cases io_bind_cases)
    qed
  qed
qed


lemma keys_inv_Nil: "keys_inv []"
  by (simp add: keys_inv_def tagKeys_def)

lemma tags_inv_Nil: "tags_inv []"
  by (simp add: tags_inv_def keyTags_def)

lemma preserves_keys_inv_add: "preserves keys_inv (addKeyToTag k t)"
  by (rule preservesI) (rule addKeyToTag_keys_inv)

lemma preserves_keys_inv_remove: "preserves keys_inv (removeKeyFromTag k t)"
  by (rule preservesI) (rule removeKeyFromTag_keys_inv)

lemma preserves_tags_inv_add: "preserves tags_inv (addKeyToTag k t)"
  by (rule preservesI) (rule addKeyToTag_tags_inv)

lemma preserves_tags_inv_remove: "preserves tags_inv (removeKeyFromTag k t)"
  by (rule preservesI) (rule removeKeyFromTag_tags_inv)

lemma preserves_keys_inv_compactTag: "preserves keys_inv (compactTag t)"
proof (rule preservesI)
  fix s r s'
  assume "keys_inv (store s)" "compactTag t s = (r, s')"
  then show "keys_inv (store s')"
    using compactTag_effect[of t s r s']
    by (auto simp: asStrings_strArr intro!: keys_inv_update keys_inv_delete)
qed

lemma preserves_tags_inv_compactTag: "preserves tags_inv (compactTag t)"
proof (rule preservesI)
  fix s r s'
  assume "tags_inv (store s)" "compactTag t s = (r, s')"
  then show "tags_inv (store s')"
    using compactTag_effect[of t s r s']
    by (auto simp: not_tags_prefix_tag_key intro!: tags_inv_update tags_inv_delete)
qed

lemma preserves_keys_inv_untag:
  "preserves keys_inv (io_bind (getTagsForKey key) (\<lambda>keyTags.
              let updatedTags = filter (\<lambda>t. t \<noteq> tag) keyTags in
              if length updatedTags > 0
              then cache_set (getKeyTagMapKey key) (strArr updatedTags) None
              else io_bind (cache_delete (getKeyTagMapKey key)) (\<lambda>b. io_return ())))"
proof (rule preservesI)
  fix s r s'
  assume "keys_inv (store s)" and run: "io_bind (getTagsForKey key) (\<lambda>keyTags.
              let updatedTags = filter (\<lambda>t. t \<noteq> tag) keyTags in
              if length updatedTags > 0
              then cache_set (getKeyTagMapKey key) (strArr updatedTags) None
              else io_bind (cache_delete (getKeyTagMapKey key)) (\<lambda>b. io_return ())) s = (r, s')"
  then show "keys_inv (store s')"
    using untag_step_effect[OF run]
    by (auto simp: not_prefix_map_key intro!: keys_inv_update keys_inv_delete)
qed

lemma preserves_tags_inv_untag:
  "preserves tags_inv (io_bind (getTagsForKey key) (\<lambda>keyTags.
              let updatedTags = filter (\<lambda>t. t \<noteq> tag) keyTags in
              if length updatedTags > 0
              then cache_set (getKeyTagMapKey key) (strArr updatedTags) None
              else io_bind (cache_delete (getKeyTagMapKey key)) (\<lambda>b. io_return ())))"
proof (rule preservesI)
  fix s r s'
  assume inv: "tags_inv (store s)" and run: "io_bind (getTagsForKey key) (\<lambda>keyTags.
              let updatedTags = filter (\<lambda>t. t \<noteq> tag) keyTags in
              if length updatedTags > 0
              then cache_set (getKeyTagMapKey key) (strArr updatedTags) None
              else io_bind (cache_delete (getKeyTagMapKey key)) (\<lambda>b. io_return ())) s = (r, s')"
  have "distinct (keyTags (store s) key)" using inv by (simp add: tags_inv_def)
  then show "tags_inv (store s')"
    using untag_step_effect[OF run] inv
    by (auto simp: asStrings_strArr intro!: tags_inv_update tags_inv_delete)
qed

lemma preserves_keys_inv_perform: "preserves keys_inv (perform operation)"
proof (cases operation)
  case (SetTagsForKey key tags)
  then show ?thesis
    by (auto intro!: preserves_setTagsForKey preserves_keys_inv_add preserves_keys_inv_remove
        keys_inv_delete keys_inv_update simp: not_prefix_map_key)
next
  case (DeleteTag tag)
  then show ?thesis
    by (auto intro!: preserves_deleteTag preserves_keys_inv_untag keys_inv_delete)
next
  case (DeleteKeyFromAllTags key)
  then show ?thesis
    by (auto intro!: preserves_deleteKeyFromAllTags preserves_keys_inv_remove keys_inv_delete)
next
  case (Compact tags)
  then show ?thesis
    by (cases tags)
       (auto simp: compact_def intro!: preserves_throw preserves_forEach preserves_keys_inv_compactTag)
qed (auto simp: clear_def intro!: preserves_keys_inv_add preserves_keys_inv_remove preserves_bind
      preserves_getKeysForTag preserves_getTagsForKey preserves_return preserves_cache_clear
      preserves_getAllTags keys_inv_Nil)

lemma preserves_tags_inv_perform:
  assumes "\<forall>key tags. operation = SetTagsForKey key tags \<longrightarrow> distinct tags"
  shows "preserves tags_inv (perform operation)"
proof (cases operation)
  case (SetTagsForKey key tags)
  then have "distinct tags" using assms by simp
  then show ?thesis using SetTagsForKey
    by (auto intro!: preserves_setTagsForKey preserves_tags_inv_add preserves_tags_inv_remove
        tags_inv_delete tags_inv_update simp: asStrings_strArr)
next
  case (DeleteTag tag)
  then show ?thesis
    by (auto intro!: preserves_deleteTag preserves_tags_inv_untag tags_inv_delete)
next
  case (DeleteKeyFromAllTags key)
  then show ?thesis
    by (auto intro!: preserves_deleteKeyFromAllTags preserves_tags_inv_remove tags_inv_delete)
next
  case (Compact tags)
  then show ?thesis
    by (cases tags)
       (auto simp: compact_def intro!: preserves_throw preserves_forEach preserves_tags_inv_compactTag)
qed (auto simp: clear_def intro!: preserves_tags_inv_add preserves_tags_inv_remove preserves_bind
      preserves_getKeysForTag preserves_getTagsForKey preserves_return preserves_cache_clear
      preserves_getAllTags tags_inv_Nil)

text \<open>
  Claim C7, as amended. Every operation of the tag index, however it ends and whatever the
  store's failures, keeps the TagKeysRecords free of duplicates: if no key occurred twice
  in any of them before, none does afterwards, for every input. It keeps the
  KeyTagsRecords free of duplicates provided the tag list passed to \<open>setTagsForKey\<close> has
  no duplicates itself: that list is stored as it is given.
\<close>

theorem tag_operations_keep_records_distinct:
  assumes run: "perform operation s = (r, s')"
  shows "(keys_inv (store s) \<longrightarrow> keys_inv (store s'))
       \<and> ((\<forall>key tags. operation = SetTagsForKey key tags \<longrightarrow> distinct tags) \<longrightarrow>
            tags_inv (store s) \<longrightarrow> tags_inv (store s'))"
  using preservesD[OF preserves_keys_inv_perform _ run]
    preservesD[OF preserves_tags_inv_perform _ run]
  by blast

text \<open>The theorem for \<open>setTagsForKey(k, [a, b])\<close> on the empty store.\<close>

theorem tag_operations_keep_records_distinct_witness:
  "perform (SetTagsForKey ''k'' [''a'', ''b'']) \<lparr>store = [], faults = [], log = []\<rparr>
     = (Inr (), \<lparr>store = [(''__tags__:k'', JArr [JStr ''a'', JStr ''b'']),
                          (''__tag__:a'', JArr [JStr ''k'']), (''__tag__:b'', JArr [JStr ''k''])],
                 faults = [], log = []\<rparr>)
   \<and> keys_inv [(''__tags__:k'', JArr [JStr ''a'', JStr ''b'']),
                (''__tag__:a'', JArr [JStr ''k'']), (''__tag__:b'', JArr [JStr ''k''])]
   \<and> tags_inv [(''__tags__:k'', JArr [JStr ''a'', JStr ''b'']),
                (''__tag__:a'', JArr [JStr ''k'']), (''__tag__:b'', JArr [JStr ''k''])]"
proof -
  have run: "perform (SetTagsForKey ''k'' [''a'', ''b'']) \<lparr>store = [], faults = [], log = []\<rparr>
     = (Inr (), \<lparr>store = [(''__tags__:k'', JArr [JStr ''a'', JStr ''b'']),
                          (''__tag__:a'', JArr [JStr ''k'']), (''__tag__:b'', JArr [JStr ''k''])],
                 faults = [], log = []\<rparr>)"
    by code_simp
  show ?thesis
    using tag_operations_keep_records_distinct[OF run] run keys_inv_Nil tags_inv_Nil by simp
qed

text \<open>
  The claim as stated includes tag lists with duplicates. \<open>setTagsForKey(k, [a, a])\<close>
  succeeds and the KeyTagsRecord of \<open>k\<close> then holds the tag \<open>a\<close> twice.
\<close>

theorem setTagsForKey_duplicates_counterexample:
  "fst (setTagsForKey ''k'' [''a'', ''a''] \<lparr>store = [], faults = [], log = []\<rparr>) = Inr ()
   \<and> fst (getTagsForKey ''k''
        (snd (setTagsForKey ''k'' [''a'', ''a''] \<lparr>store = [], faults = [], log = []\<rparr>)))
     = Inr [''a'', ''a'']
   \<and> \<not> distinct [''a'', ''a'']"
  by code_simp

section \<open>Listing all tags\<close>

text \<open>
  Claim C8 says that \<open>TaggedKeyv.getAllTags\<close> on the default tag manager returns the
  distinct names of the tags that have a non-empty TagKeysRecord. The default tag manager
  has no method \<open>getAllTags\<close>: in every state, whatever the store holds,
  \<open>TaggedKeyv.getAllTags\<close> fails with the error "failed to get all tags" that wraps the
  \<open>TypeError\<close> of the call, and returns no list; the state is left as it was. So it is
  in the state a successful \<open>set(u1, 1, {tags: [users]})\<close> leaves, where the claim
  calls for the list \<open>[users]\<close>.
\<close>

theorem getAllTags_default_manager_throws:
  "getAllTags_TaggedKeyv s = (Inl (FailedToGetAllTags (NotAFunction ''getAllTags'')), s)
   \<and> fst (getAllTags_TaggedKeyv
         (snd (set_TaggedKeyv ''u1'' (JNum 1) (Options None (Some [''users''])) []
                \<lparr>store = [], faults = [], log = []\<rparr>)))
       = Inl (FailedToGetAllTags (NotAFunction ''getAllTags''))"
proof -
  have thrown: "getAllTags_TaggedKeyv s' = (Inl (FailedToGetAllTags (NotAFunction ''getAllTags'')), s')"
    for s'
    by (simp add: getAllTags_TaggedKeyv_def getAllTags_def io_catch_def io_throw_def)
  show ?thesis by (simp add: thrown)
qed

section \<open>Pending calls on one key\<close>

text \<open>With two calls the lock does its work: in every schedule of the calls 0 and 1, the
  two are never inside their operations at the same time.\<close>


lemma two_calls_inv_init: "two_calls_inv init_locks"
  by (simp add: two_calls_inv_def init_locks_def)

lemma two_calls_inv_step:
  assumes inv: "two_calls_inv s" and i: "call_of e < 2" and st: "step e s = Some s'"
  shows "two_calls_inv s'"
proof -
  have c: "call_of e = 0 \<or> call_of e = 1" using i by auto
  show ?thesis
  proof (cases e)
    case (Call i)
    then have "i = 0 \<or> i = 1" using c by simp
    then show ?thesis
    proof
      assume "i = 0"
      then show ?thesis using inv st Call
        by (cases "locks s") (auto simp: two_calls_inv_def enter_def split: if_splits)
    next
      assume "i = 1"
      then show ?thesis using inv st Call
        by (cases "locks s") (auto simp: two_calls_inv_def enter_def split: if_splits)
    qed
  next
    case (Resume i)
    then have "i = 0 \<or> i = 1" using c by simp
    then show ?thesis
    proof
      assume "i = 0"
      then show ?thesis using inv st Resume
        by (cases "phases s 0"; cases "promises s 1")
           (auto simp: two_calls_inv_def enter_def split: if_splits)
    next
      assume "i = 1"
      then show ?thesis using inv st Resume
        by (cases "phases s 1"; cases "promises s 0")
           (auto simp: two_calls_inv_def enter_def split: if_splits)
    qed
  next
    case (Settle i ok)
    then have "i = 0 \<or> i = 1" using c by simp
    then show ?thesis
    proof
      assume "i = 0"
      then show ?thesis using inv st Settle
        by (cases ok) (auto simp: two_calls_inv_def split: if_splits)
    next
      assume "i = 1"
      then show ?thesis using inv st Settle
        by (cases ok) (auto simp: two_calls_inv_def split: if_splits)
    qed
  qed
qed

lemma two_calls_inv_run:
  assumes "two_calls_inv s" "\<forall>e \<in> set es. call_of e < 2" "run es s = Some s'"
  shows "two_calls_inv s'"
  using assms
proof (induction es arbitrary: s)
  case Nil
  then show ?case by simp
next
  case (Cons e es)
  then obtain s1 where s1: "step e s = Some s1" "run es s1 = Some s'"
    by (auto split: option.splits)
  have "two_calls_inv s1" using two_calls_inv_step[OF Cons.prems(1) _ s1(1)] Cons.prems(2) by simp
  then show ?case using Cons.IH[OF _ _ s1(2)] Cons.prems(2) by simp
qed

lemma two_calls_never_overlap:
  assumes "\<forall>e \<in> set es. call_of e < 2" "run es init_locks = Some s"
  shows "\<not> (phases s 0 = InOperation \<and> phases s 1 = InOperation)"
proof -
  have "two_calls_inv s" using two_calls_inv_run[OF two_calls_inv_init assms] .
  then show ?thesis by (auto simp: two_calls_inv_def)
qed

text \<open>
  Claim C9 says that any number of \<open>set\<close> and \<open>delete\<close> calls pending on one key are
  serialized, queued and never rejected. The lock does not do that. Let three calls be
  made before the first has finished, as in \<open>Promise.all([set(k, 1), set(k, 2), delete(k)])\<close>:
  the first takes the lock, the second and the third both find its entry and await the
  same promise. When the first operation succeeds, both continue one after the other
  before either operation can finish, and both start their operation: calls 1 and 2 are
  inside their operations at the same time. When call 1 then finishes it deletes the
  entry, which by now belongs to call 2, so call 2 is still running while the key shows
  no lock. And when the first operation fails instead, the promise the second call awaits
  is rejected: the second call fails with the first call's error and never runs.
\<close>

theorem withLock_three_calls_overlap:
  "map_option (\<lambda>s. (phases s 0, phases s 1, phases s 2, locks s))
     (run [Call 0, Call 1, Call 2, Settle 0 True, Resume 1, Resume 2] init_locks)
     = Some (Succeeded, InOperation, InOperation, Some 2)
   \<and> map_option (\<lambda>s. (phases s 1, phases s 2, locks s))
     (run [Call 0, Call 1, Call 2, Settle 0 True, Resume 1, Resume 2, Settle 1 True] init_locks)
     = Some (Succeeded, InOperation, None)
   \<and> map_option (\<lambda>s. (phases s 0, phases s 1))
     (run [Call 0, Call 1, Settle 0 False, Resume 1] init_locks)
     = Some (Failed, RejectedByLock)"
  by (simp add: init_locks_def enter_def)

end
